theory Spec2Isabelle
  imports Complex_Main "HOL-Library.Word"
begin

section \<open>Values of the platform\<close>

text \<open>
  The bridge is JavaScript. A byte buffer (\<^verbatim>\<open>ArrayBuffer\<close>, \<^verbatim>\<open>Uint8Array\<close>) is a list of
  bytes, an offset or a length is a natural number, and the difference
  \<^verbatim>\<open>totalLength - headersLength - 16\<close>, which may be negative, is an integer (all the numbers
  involved are far below \<open>2^53\<close>, where JavaScript's numbers are exact).
\<close>

type_synonym byte = "8 word"

text \<open>
  A decoded payload is whatever \<^verbatim>\<open>JSON.parse\<close> returns. An object holds its own properties
  as an association list, read with \<^const>\<open>map_of\<close>. A number is the rational it denotes:
  the code only asks whether it is zero.
\<close>

datatype json =
    JNull
  | JBool bool
  | JNum rat
  | JStr string
  | JArr "json list"
  | JObj "(string \<times> json) list"

text \<open>
  The built-ins the code calls and does not define: \<^verbatim>\<open>new TextDecoder().decode\<close>,
  \<^verbatim>\<open>JSON.parse\<close> (\<open>None\<close> when it throws SyntaxError), \<^verbatim>\<open>JSON.stringify\<close>, and
  \<^verbatim>\<open>crypto.randomUUID\<close>, whose results are named by the number of the request's payload
  they are drawn for (0 for the message identifier).
\<close>

record platform =
  TextDecoder_decode :: "byte list \<Rightarrow> string"
  JSON_parse :: "string \<Rightarrow> json option"
  JSON_stringify :: "json \<Rightarrow> string"
  randomUUID :: "nat \<Rightarrow> string"

datatype error = RangeError | TypeError

section \<open>Frame decoder and stream readers\<close>

text \<open>
  The module \<^verbatim>\<open>aws-event-stream.js\<close> (the second module in \<^verbatim>\<open>src/kiro/index.js\<close>):
  \<^verbatim>\<open>parseEventMessage\<close>, \<^verbatim>\<open>parseEventStream\<close> and \<^verbatim>\<open>parseEventStreamAsync\<close>.
\<close>

text \<open>A big-endian unsigned integer, most significant byte first.\<close>

definition be_uint :: "byte list \<Rightarrow> nat" where
  "be_uint bs = foldl (\<lambda>a b. a * 256 + unat b) 0 bs"

text \<open>
  \<^verbatim>\<open>new DataView(buffer, byteOffset).getUint32(p)\<close>: RangeError when the view starts beyond
  the buffer or the four bytes are not all inside it.
\<close>

definition DataView_getUint32 :: "byte list \<Rightarrow> nat \<Rightarrow> nat \<Rightarrow> error + nat" where
  "DataView_getUint32 buffer byteOffset p =
     (if byteOffset + p + 4 \<le> length buffer
      then Inr (be_uint (take 4 (drop (byteOffset + p) buffer)))
      else Inl RangeError)"

text \<open>
  \<^verbatim>\<open>new Uint8Array(buffer, byteOffset, length)\<close>: RangeError when the range leaves the
  buffer.
\<close>

definition Uint8Array_view :: "byte list \<Rightarrow> nat \<Rightarrow> nat \<Rightarrow> error + byte list" where
  "Uint8Array_view buffer byteOffset len =
     (if byteOffset + len \<le> length buffer
      then Inr (take len (drop byteOffset buffer))
      else Inl RangeError)"

text \<open>\<^verbatim>\<open>buffer.slice(begin, end)\<close> and \<^verbatim>\<open>buffer.slice(begin)\<close>: clamped, never an error.\<close>

definition slice :: "byte list \<Rightarrow> nat \<Rightarrow> nat \<Rightarrow> byte list" where
  "slice buffer begin end = take (end - begin) (drop begin buffer)"

definition slice_from :: "byte list \<Rightarrow> nat \<Rightarrow> byte list" where
  "slice_from buffer begin = drop begin buffer"

text \<open>
  The \<^verbatim>\<open>try { data = JSON.parse(payload) } catch { data = { raw: payload } }\<close> of both
  parsers.
\<close>

definition parse_or_raw :: "platform \<Rightarrow> string \<Rightarrow> json" where
  "parse_or_raw pf payload =
     (case JSON_parse pf payload of
        Some data \<Rightarrow> data
      | None \<Rightarrow> JObj [(''raw'', JStr payload)])"

text \<open>
  The result of \<^verbatim>\<open>parseEventMessage\<close>: \<^verbatim>\<open>null\<close> (incomplete), or
  \<^verbatim>\<open>{ data, nextOffset }\<close>. An empty frame has \<^verbatim>\<open>data: null\<close>, the same value
  \<^verbatim>\<open>JSON.parse\<close> gives for the text \<^verbatim>\<open>null\<close>.
\<close>

datatype parsed = Incomplete | Message json nat

definition parseEventMessage :: "platform \<Rightarrow> byte list \<Rightarrow> nat \<Rightarrow> error + parsed" where
  "parseEventMessage pf buffer offset =
     (if offset + 12 > length buffer then Inr Incomplete
      else
        (case DataView_getUint32 buffer offset 0 of
           Inl e \<Rightarrow> Inl e
         | Inr totalLength \<Rightarrow>
        (case DataView_getUint32 buffer offset 4 of
           Inl e \<Rightarrow> Inl e
         | Inr headersLength \<Rightarrow>
        (if offset + totalLength > length buffer then Inr Incomplete
         else
           let payloadOffset = offset + 12 + headersLength;
               payloadLength = int totalLength - int headersLength - 16
           in if payloadLength \<le> 0 then Inr (Message JNull (offset + totalLength))
              else
                (case Uint8Array_view buffer payloadOffset (nat payloadLength) of
                   Inl e \<Rightarrow> Inl e
                 | Inr bytes \<Rightarrow>
                     Inr (Message (parse_or_raw pf (TextDecoder_decode pf bytes))
                            (offset + totalLength)))))))"

text \<open>
  The \<^verbatim>\<open>while (offset < buffer.byteLength)\<close> of \<^verbatim>\<open>parseEventStream\<close>. The loop may
  run forever, so its value is an option: \<open>None\<close> is "does not return".
\<close>

partial_function (option) parseEventStream_while ::
  "platform \<Rightarrow> byte list \<Rightarrow> nat \<Rightarrow> json list \<Rightarrow> (error + json list) option" where
  "parseEventStream_while pf buffer offset events =
     (if offset < length buffer then
        (case parseEventMessage pf buffer offset of
           Inl e \<Rightarrow> Some (Inl e)
         | Inr Incomplete \<Rightarrow> Some (Inr events)
         | Inr (Message data nextOffset) \<Rightarrow>
             parseEventStream_while pf buffer nextOffset
               (if data \<noteq> JNull then events @ [data] else events))
      else Some (Inr events))"

definition parseEventStream :: "platform \<Rightarrow> byte list \<Rightarrow> (error + json list) option" where
  "parseEventStream pf buffer = parseEventStream_while pf buffer 0 []"

text \<open>
  The inner \<^verbatim>\<open>while (offset < buffer.length)\<close> of \<^verbatim>\<open>parseEventStreamAsync\<close>, which
  decodes the frames itself. The payloads it yields are collected in a list; it returns
  the offset it stopped at and that list, or does not return.
\<close>

partial_function (option) parseEventStreamAsync_while ::
  "platform \<Rightarrow> byte list \<Rightarrow> nat \<Rightarrow> json list \<Rightarrow> (error + nat \<times> json list) option" where
  "parseEventStreamAsync_while pf buffer offset yielded =
     (if offset < length buffer then
        (if offset + 12 > length buffer then Some (Inr (offset, yielded))
         else
           (case DataView_getUint32 buffer offset 0 of
              Inl e \<Rightarrow> Some (Inl e)
            | Inr totalLength \<Rightarrow>
           (if offset + totalLength > length buffer then Some (Inr (offset, yielded))
            else
              (case DataView_getUint32 buffer offset 4 of
                 Inl e \<Rightarrow> Some (Inl e)
               | Inr headersLength \<Rightarrow>
                 (let payloadOffset = offset + 12 + headersLength;
                      payloadLength = int totalLength - int headersLength - 16
                  in parseEventStreamAsync_while pf buffer (offset + totalLength)
                       (if payloadLength > 0
                        then yielded @
                          [parse_or_raw pf (TextDecoder_decode pf
                             (slice buffer payloadOffset (payloadOffset + nat payloadLength)))]
                        else yielded))))))
      else Some (Inr (offset, yielded)))"

text \<open>
  The outer \<^verbatim>\<open>while (true)\<close> over the chunks \<^verbatim>\<open>reader.read()\<close> delivers, until
  \<^verbatim>\<open>done\<close>: append the chunk, scan, keep the unprocessed tail.
\<close>

fun parseEventStreamAsync_read ::
  "platform \<Rightarrow> byte list \<Rightarrow> byte list list \<Rightarrow> json list \<Rightarrow> (error + json list) option" where
  "parseEventStreamAsync_read pf buffer [] yielded = Some (Inr yielded)"
| "parseEventStreamAsync_read pf buffer (chunk # chunks) yielded =
     (let newBuffer = buffer @ chunk in
      (case parseEventStreamAsync_while pf newBuffer 0 yielded of
         None \<Rightarrow> None
       | Some (Inl e) \<Rightarrow> Some (Inl e)
       | Some (Inr (offset, yielded')) \<Rightarrow>
           parseEventStreamAsync_read pf
             (if offset > 0 then slice_from newBuffer offset else newBuffer) chunks yielded'))"

definition parseEventStreamAsync ::
  "platform \<Rightarrow> byte list list \<Rightarrow> (error + json list) option" where
  "parseEventStreamAsync pf chunks = parseEventStreamAsync_read pf [] chunks []"

text \<open>
  The two header fields of the frame that starts at an offset, as the two
  \<^verbatim>\<open>getUint32\<close> reads return them once twelve bytes are there, and the bytes of its payload.
\<close>

definition totalLength_at :: "byte list \<Rightarrow> nat \<Rightarrow> nat" where
  "totalLength_at buffer offset = be_uint (take 4 (drop offset buffer))"

definition headersLength_at :: "byte list \<Rightarrow> nat \<Rightarrow> nat" where
  "headersLength_at buffer offset = be_uint (take 4 (drop (offset + 4) buffer))"

definition payloadLength_at :: "byte list \<Rightarrow> nat \<Rightarrow> int" where
  "payloadLength_at buffer offset =
     int (totalLength_at buffer offset) - int (headersLength_at buffer offset) - 16"

definition payloadOffset_at :: "byte list \<Rightarrow> nat \<Rightarrow> nat" where
  "payloadOffset_at buffer offset = offset + 12 + headersLength_at buffer offset"

definition payload_bytes :: "byte list \<Rightarrow> nat \<Rightarrow> byte list" where
  "payload_bytes buffer offset =
     take (nat (payloadLength_at buffer offset)) (drop (payloadOffset_at buffer offset) buffer)"

section \<open>Event translator and stream orchestrator\<close>

text \<open>
  The module \<^verbatim>\<open>streaming-handler.js\<close>: \<^verbatim>\<open>convertKiroEventToAnthropic\<close> and
  \<^verbatim>\<open>streamKiroResponse\<close>.
\<close>

text \<open>
  A JavaScript value read from a payload is a JSON value or \<^verbatim>\<open>undefined\<close> (\<open>None\<close>).
  Reading a property of \<^verbatim>\<open>null\<close> throws TypeError, which the translator below checks
  before it reads; a property of a number, a string, a boolean or an array is
  \<^verbatim>\<open>undefined\<close> for every name the code asks for.
\<close>

fun get :: "json \<Rightarrow> string \<Rightarrow> json option" where
  "get (JObj kvs) k = map_of kvs k"
| "get _ k = None"

fun truthy :: "json \<Rightarrow> bool" where
  "truthy JNull = False"
| "truthy (JBool b) = b"
| "truthy (JNum n) = (n \<noteq> 0)"
| "truthy (JStr s) = (s \<noteq> [])"
| "truthy (JArr _) = True"
| "truthy (JObj _) = True"

fun truthy_opt :: "json option \<Rightarrow> bool" where
  "truthy_opt None = False"
| "truthy_opt (Some v) = truthy v"

text \<open>\<^verbatim>\<open>a || b\<close>, and \<^verbatim>\<open>a || b\<close> where \<open>b\<close> is never \<^verbatim>\<open>undefined\<close>.\<close>

definition or_else :: "json option \<Rightarrow> json option \<Rightarrow> json option" where
  "or_else a b = (if truthy_opt a then a else b)"

fun or_default :: "json option \<Rightarrow> json \<Rightarrow> json" where
  "or_default None b = b"
| "or_default (Some v) b = (if truthy v then v else b)"

text \<open>
  \<^verbatim>\<open>a?.k\<close>, which is \<^verbatim>\<open>undefined\<close> when \<open>a\<close> is \<^verbatim>\<open>undefined\<close> or \<^verbatim>\<open>null\<close>; and
  \<^verbatim>\<open>a.k\<close> at the places where the code has just found \<open>a\<close> truthy, so that it cannot
  throw.
\<close>

fun opt_chain :: "json option \<Rightarrow> string \<Rightarrow> json option" where
  "opt_chain None k = None"
| "opt_chain (Some v) k = get v k"

fun dot :: "json option \<Rightarrow> string \<Rightarrow> json option" where
  "dot None k = None"
| "dot (Some v) k = get v k"

text \<open>
  Whether the conversion of a value to a string, as a template literal does it, throws
  TypeError. A primitive converts. An object converts with the \<^verbatim>\<open>toString\<close> it inherits,
  unless it has a property of that name of its own: a JSON value is never a function, the
  inherited \<^verbatim>\<open>valueOf\<close> returns the object itself, and the conversion throws. An array
  converts with \<^verbatim>\<open>join\<close>, which converts every element but \<^verbatim>\<open>null\<close>.
  \<^verbatim>\<open>undefined\<close> converts.
\<close>

fun ToString_throws :: "json \<Rightarrow> bool" where
  "ToString_throws JNull = False"
| "ToString_throws (JBool b) = False"
| "ToString_throws (JNum n) = False"
| "ToString_throws (JStr s) = False"
| "ToString_throws (JArr xs) = list_ex ToString_throws xs"
| "ToString_throws (JObj kvs) = (map_of kvs ''toString'' \<noteq> None)"

fun ToString_throws_opt :: "json option \<Rightarrow> bool" where
  "ToString_throws_opt None = False"
| "ToString_throws_opt (Some v) = ToString_throws v"

text \<open>
  The events yielded. \<open>Tool_use id name\<close> is the block
  \<^verbatim>\<open>{ type: 'tool_use', id, name, input: {} }\<close>; \<open>Message_delta stop_reason input_tokens
  output_tokens\<close> has \<^verbatim>\<open>delta.stop_reason\<close>, \<^verbatim>\<open>usage.input_tokens\<close> (each absent in one of
  the two places that build the event) and \<^verbatim>\<open>usage.output_tokens\<close>.
\<close>

datatype content_block = Text_block string | Tool_use json "json option"

datatype delta = Text_delta json | Input_json_delta string

datatype event =
    Message_start string string
  | Content_block_start nat content_block
  | Content_block_delta nat delta
  | Content_block_stop nat
  | Message_delta "string option" "json option" json
  | Message_stop

text \<open>
  \<^verbatim>\<open>`msg_${crypto.randomUUID().replace(/-/g, '').substring(0, 24)}`\<close> and the same with
  \<^verbatim>\<open>toolu_\<close>.
\<close>

definition synthetic_id :: "string \<Rightarrow> string \<Rightarrow> string" where
  "synthetic_id prefix uuid = prefix @ take 24 (filter (\<lambda>c. c \<noteq> CHR ''-'') uuid)"

text \<open>
  \<^verbatim>\<open>convertKiroEventToAnthropic(eventData, blockIndex, hasOpenBlock)\<close>; \<open>uuid\<close> is what
  \<^verbatim>\<open>crypto.randomUUID()\<close> returns if this call asks for it. It throws where it reads a
  property of \<^verbatim>\<open>null\<close>, and in the usage branch where it builds the message for
  \<^verbatim>\<open>logger.debug\<close> from \<^verbatim>\<open>eventData.usage\<close> and
  \<^verbatim>\<open>eventData.unitPlural || eventData.unit\<close>; the message itself goes to the logger only.
\<close>

definition convertKiroEventToAnthropic ::
  "platform \<Rightarrow> string \<Rightarrow> json \<Rightarrow> nat \<Rightarrow> bool \<Rightarrow> error + event list" where
  "convertKiroEventToAnthropic pf uuid eventData blockIndex hasOpenBlock =
     (if eventData = JNull then Inl TypeError
      else
        (case get eventData ''content'' of
           Some (JStr text) \<Rightarrow> Inr [Content_block_delta blockIndex (Text_delta (JStr text))]
         | _ \<Rightarrow>
        (if truthy_opt (get eventData ''assistantResponseEvent'') then
           (let content = dot (get eventData ''assistantResponseEvent'') ''content''
            in (case content of
                  Some c \<Rightarrow>
                    Inr (if truthy c then [Content_block_delta blockIndex (Text_delta c)] else [])
                | None \<Rightarrow> Inr []))
         else if get eventData ''usage'' \<noteq> None \<and> get eventData ''unit'' \<noteq> None then
           (if ToString_throws_opt (get eventData ''usage'')
               \<or> ToString_throws_opt
                    (or_else (get eventData ''unitPlural'') (get eventData ''unit''))
            then Inl TypeError
            else Inr [])
         else
           (let usage = or_else (opt_chain (get eventData ''metadataEvent'') ''tokenUsage'')
                          (get eventData ''tokenUsage'')
            in if truthy_opt usage then
                 Inr [Message_delta None
                        (Some (or_default (dot usage ''inputTokens'') (JNum 0)))
                        (or_default (dot usage ''outputTokens'') (JNum 0))]
               else
                 (let toolUse = or_else (get eventData ''toolUseEvent'') (get eventData ''toolUse'')
                  in if truthy_opt toolUse then
                       (let newBlockIndex = blockIndex + 1
                        in Inr ((if hasOpenBlock then [Content_block_stop blockIndex] else []) @
                             [Content_block_start newBlockIndex
                                (Tool_use
                                   (or_default (dot toolUse ''toolUseId'')
                                      (JStr (synthetic_id ''toolu_'' uuid)))
                                   (dot toolUse ''name''))] @
                             (case dot toolUse ''input'' of
                                Some i \<Rightarrow>
                                  if truthy i
                                  then [Content_block_delta newBlockIndex
                                          (Input_json_delta (JSON_stringify pf i))]
                                  else []
                              | None \<Rightarrow> []) @
                             [Content_block_stop newBlockIndex]))
                     else if truthy_opt (get eventData ''codeEvent'') then
                       Inr [Content_block_delta blockIndex
                              (Text_delta
                                 (or_default (dot (get eventData ''codeEvent'') ''content'')
                                    (JStr [])))]
                     else Inr [])))))"

text \<open>The variables of \<^verbatim>\<open>streamKiroResponse\<close>, and their values as it declares them.\<close>

record stream_state =
  contentBlockIndex :: nat
  hasStarted :: bool
  hasOpenBlock :: bool
  inputTokens :: json
  outputTokens :: json

definition initial_state :: stream_state where
  "initial_state = \<lparr>contentBlockIndex = 0, hasStarted = False, hasOpenBlock = False,
                     inputTokens = JNum 0, outputTokens = JNum 0\<rparr>"

text \<open>
  The body of \<^verbatim>\<open>for (const evt of anthropicEvents)\<close> apart from the \<^verbatim>\<open>yield\<close>: every
  event is an object, so \<^verbatim>\<open>if (evt)\<close> holds, and only a \<^verbatim>\<open>message_delta\<close> has
  \<^verbatim>\<open>evt.usage\<close>.
\<close>

fun track :: "stream_state \<Rightarrow> event \<Rightarrow> stream_state" where
  "track s (Content_block_start i b) = s\<lparr>hasOpenBlock := True\<rparr>"
| "track s (Content_block_stop i) = s\<lparr>hasOpenBlock := False\<rparr>"
| "track s (Message_delta r it ot) =
     s\<lparr>inputTokens := or_default it (inputTokens s),
        outputTokens := or_default (Some ot) (outputTokens s)\<rparr>"
| "track s (Message_start i m) = s"
| "track s (Content_block_delta i d) = s"
| "track s Message_stop = s"

text \<open>
  One round of \<^verbatim>\<open>for await (const event of parseEventStreamAsync(response.body))\<close>: the
  events yielded, and the new state or the error thrown.
\<close>

definition for_await_body ::
  "platform \<Rightarrow> string \<Rightarrow> string \<Rightarrow> string \<Rightarrow> stream_state \<Rightarrow> json
     \<Rightarrow> event list \<times> (error + stream_state)" where
  "for_await_body pf messageId requestModel uuid s event =
     (let (started, s1) =
            (if \<not> hasStarted s
             then ([Message_start messageId requestModel,
                    Content_block_start (contentBlockIndex s) (Text_block [])],
                   s\<lparr>hasStarted := True, hasOpenBlock := True\<rparr>)
             else ([], s))
      in (case convertKiroEventToAnthropic pf uuid event (contentBlockIndex s1) (hasOpenBlock s1) of
            Inl e \<Rightarrow> (started, Inl e)
          | Inr anthropicEvents \<Rightarrow> (started @ anthropicEvents, Inr (foldl track s1 anthropicEvents))))"

fun for_await ::
  "platform \<Rightarrow> string \<Rightarrow> string \<Rightarrow> nat \<Rightarrow> stream_state \<Rightarrow> json list
     \<Rightarrow> event list \<times> (error + stream_state)" where
  "for_await pf messageId requestModel k s [] = ([], Inr s)"
| "for_await pf messageId requestModel k s (event # events) =
     (case for_await_body pf messageId requestModel (randomUUID pf k) s event of
        (out, Inl e) \<Rightarrow> (out, Inl e)
      | (out, Inr s') \<Rightarrow>
          (case for_await pf messageId requestModel (Suc k) s' events of
             (out', r) \<Rightarrow> (out @ out', r)))"

text \<open>
  \<^verbatim>\<open>streamKiroResponse(response, requestModel)\<close> over the payloads the incremental parser
  yields from \<^verbatim>\<open>response.body\<close>: the events yielded in order, and the error rethrown by the
  \<^verbatim>\<open>catch\<close>, if any.
\<close>

definition streamKiroResponse ::
  "platform \<Rightarrow> string \<Rightarrow> json list \<Rightarrow> event list \<times> error option" where
  "streamKiroResponse pf requestModel payloads =
     (let messageId = synthetic_id ''msg_'' (randomUUID pf 0)
      in (case for_await pf messageId requestModel 1 initial_state payloads of
            (out, Inl e) \<Rightarrow> (out, Some e)
          | (out, Inr s) \<Rightarrow>
              (out @
               (if hasOpenBlock s then [Content_block_stop (contentBlockIndex s)] else []) @
               [Message_delta (Some ''end_turn'') None (outputTokens s), Message_stop],
               None)))"

section \<open>Notions the properties are stated with\<close>

text \<open>
  The block discipline of an event sequence, read from left to right with the index of the
  block that is open, if any: a \<^verbatim>\<open>content_block_start\<close> needs every earlier block closed, a
  \<^verbatim>\<open>content_block_stop\<close> closes the open block at its own index, and at the end no block
  is open.
\<close>

fun blocks_matched :: "nat option \<Rightarrow> event list \<Rightarrow> bool" where
  "blocks_matched opn [] = (opn = None)"
| "blocks_matched opn (Content_block_start i b # es) = (opn = None \<and> blocks_matched (Some i) es)"
| "blocks_matched opn (Content_block_stop i # es) = (opn = Some i \<and> blocks_matched None es)"
| "blocks_matched opn (Message_start i m # es) = blocks_matched opn es"
| "blocks_matched opn (Content_block_delta i d # es) = blocks_matched opn es"
| "blocks_matched opn (Message_delta r it ot # es) = blocks_matched opn es"
| "blocks_matched opn (Message_stop # es) = blocks_matched opn es"

text \<open>The block left open by an event sequence: that of the last start with no stop after it.\<close>

fun open_block :: "nat option \<Rightarrow> event list \<Rightarrow> nat option" where
  "open_block opn [] = opn"
| "open_block opn (Content_block_start i b # es) = open_block (Some i) es"
| "open_block opn (Content_block_stop i # es) = open_block None es"
| "open_block opn (Message_start i m # es) = open_block opn es"
| "open_block opn (Content_block_delta i d # es) = open_block opn es"
| "open_block opn (Message_delta r it ot # es) = open_block opn es"
| "open_block opn (Message_stop # es) = open_block opn es"

fun is_message_start :: "event \<Rightarrow> bool" where
  "is_message_start (Message_start i m) = True"
| "is_message_start (Content_block_start i b) = False"
| "is_message_start (Content_block_delta i d) = False"
| "is_message_start (Content_block_stop i) = False"
| "is_message_start (Message_delta r it ot) = False"
| "is_message_start Message_stop = False"

text \<open>
  The output-token count of the last usage-bearing event of a sequence, \<open>dflt\<close> if there is
  none; and the same over the events whose count is truthy (not zero, not empty) only.
\<close>

fun last_output_tokens :: "json \<Rightarrow> event list \<Rightarrow> json" where
  "last_output_tokens dflt [] = dflt"
| "last_output_tokens dflt (Message_delta r it ot # es) = last_output_tokens ot es"
| "last_output_tokens dflt (Message_start i m # es) = last_output_tokens dflt es"
| "last_output_tokens dflt (Content_block_start i b # es) = last_output_tokens dflt es"
| "last_output_tokens dflt (Content_block_delta i d # es) = last_output_tokens dflt es"
| "last_output_tokens dflt (Content_block_stop i # es) = last_output_tokens dflt es"
| "last_output_tokens dflt (Message_stop # es) = last_output_tokens dflt es"

fun last_truthy_output_tokens :: "json \<Rightarrow> event list \<Rightarrow> json" where
  "last_truthy_output_tokens dflt [] = dflt"
| "last_truthy_output_tokens dflt (Message_delta r it ot # es) =
     last_truthy_output_tokens (if truthy ot then ot else dflt) es"
| "last_truthy_output_tokens dflt (Message_start i m # es) = last_truthy_output_tokens dflt es"
| "last_truthy_output_tokens dflt (Content_block_start i b # es) = last_truthy_output_tokens dflt es"
| "last_truthy_output_tokens dflt (Content_block_delta i d # es) = last_truthy_output_tokens dflt es"
| "last_truthy_output_tokens dflt (Content_block_stop i # es) = last_truthy_output_tokens dflt es"
| "last_truthy_output_tokens dflt (Message_stop # es) = last_truthy_output_tokens dflt es"

text \<open>
  The payloads on which the translator throws: \<^verbatim>\<open>null\<close>, and a payload that reaches the
  usage branch (no string \<^verbatim>\<open>content\<close>, no truthy \<^verbatim>\<open>assistantResponseEvent\<close>, a
  \<^verbatim>\<open>usage\<close> and a \<^verbatim>\<open>unit\<close>) with a value there that does not convert to a string.
\<close>

fun is_string :: "json option \<Rightarrow> bool" where
  "is_string (Some (JStr s)) = True"
| "is_string (Some JNull) = False"
| "is_string (Some (JBool b)) = False"
| "is_string (Some (JNum n)) = False"
| "is_string (Some (JArr xs)) = False"
| "is_string (Some (JObj kvs)) = False"
| "is_string None = False"

definition translator_throws :: "json \<Rightarrow> bool" where
  "translator_throws eventData \<longleftrightarrow>
     eventData = JNull
     \<or> (get eventData ''usage'' \<noteq> None \<and> get eventData ''unit'' \<noteq> None
        \<and> \<not> is_string (get eventData ''content'')
        \<and> \<not> truthy_opt (get eventData ''assistantResponseEvent'')
        \<and> (ToString_throws_opt (get eventData ''usage'')
           \<or> ToString_throws_opt
                (or_else (get eventData ''unitPlural'') (get eventData ''unit''))))"

text \<open>The events the orchestrator yields while it consumes the payloads, before the source ends.\<close>

definition translated :: "platform \<Rightarrow> string \<Rightarrow> json list \<Rightarrow> event list" where
  "translated pf requestModel payloads =
     fst (for_await pf (synthetic_id ''msg_'' (randomUUID pf 0)) requestModel 1 initial_state
            payloads)"

section \<open>A platform for the examples\<close>

text \<open>
  The examples are closed terms, so they need the built-ins as functions. These agree with
  the JavaScript ones wherever an example calls them: ASCII bytes decode to their
  characters, the texts \<^verbatim>\<open>null\<close> and \<^verbatim>\<open>{}\<close> parse to the null value and the empty object,
  the texts \<^verbatim>\<open>hi\<close> and the empty text are not JSON, and the empty object serialises to
  \<^verbatim>\<open>{}\<close>.
\<close>

definition ascii_decode :: "byte list \<Rightarrow> string" where
  "ascii_decode bytes = map (\<lambda>b. char_of (unat b)) bytes"

definition example_platform :: platform where
  "example_platform =
     \<lparr>TextDecoder_decode = ascii_decode,
      JSON_parse = (\<lambda>text. if text = ''null'' then Some JNull
                            else if text = ''{}'' then Some (JObj []) else None),
      JSON_stringify = (\<lambda>v. ''{}''),
      randomUUID = (\<lambda>k. ''1b4e28ba-2fa1-41d2-883f-0016d3cca427'')\<rparr>"

text \<open>
  Frames with no headers: a twelve-byte prelude, the payload, four checksum bytes. The payloads
  are the texts \<^verbatim>\<open>null\<close> and \<^verbatim>\<open>hi\<close> and the empty payload; the last frame declares the
  length 0.
\<close>

definition null_frame :: "byte list" where
  "null_frame = [0, 0, 0, 20, 0, 0, 0, 0, 0, 0, 0, 0, 0x6E, 0x75, 0x6C, 0x6C, 0, 0, 0, 0]"

definition hi_frame :: "byte list" where
  "hi_frame = [0, 0, 0, 18, 0, 0, 0, 0, 0, 0, 0, 0, 0x68, 0x69, 0, 0, 0, 0]"

definition empty_frame :: "byte list" where
  "empty_frame = [0, 0, 0, 16, 0, 0, 0, 0, 0, 0, 0, 0, 0, 0, 0, 0]"

definition zero_length_frame :: "byte list" where
  "zero_length_frame = [0, 0, 0, 0, 0, 0, 0, 0, 0, 0, 0, 0]"

section \<open>Notions the proofs use\<close>

text \<open>The block the orchestrator's variables say is open.\<close>

definition open_state :: "stream_state \<Rightarrow> nat option" where
  "open_state s = (if hasOpenBlock s then Some (contentBlockIndex s) else None)"

text \<open>The events that neither open nor close anything: the two kinds of delta.\<close>

fun plain :: "event \<Rightarrow> bool" where
  "plain (Content_block_delta i d) = True"
| "plain (Message_delta r it ot) = True"
| "plain (Message_start i m) = False"
| "plain (Content_block_start i b) = False"
| "plain (Content_block_stop i) = False"
| "plain Message_stop = False"

text \<open>
  What the events of some payloads do to the variables of a stream that has started: the
  index stays, and the blocks, the message events and the token count go from the state
  before to the state after.
\<close>

definition carries :: "stream_state \<Rightarrow> event list \<Rightarrow> stream_state \<Rightarrow> bool" where
  "carries s out s' \<longleftrightarrow>
     hasStarted s' \<and> contentBlockIndex s' = contentBlockIndex s
     \<and> open_state s' = open_block (open_state s) out
     \<and> (\<forall>tail. blocks_matched (open_state s) (out @ tail) = blocks_matched (open_state s') tail)
     \<and> filter is_message_start out = [] \<and> Message_stop \<notin> set out
     \<and> outputTokens s' = last_truthy_output_tokens (outputTokens s) out"

text \<open>
  Each scanning loop as a total function, with the one case in which it does not return
  made explicit: a complete frame that declares the total length 0. In every other round
  the offset grows and stays within the buffer.
\<close>

function sync_run :: "platform \<Rightarrow> byte list \<Rightarrow> nat \<Rightarrow> json list \<Rightarrow> json list option" where
  "sync_run pf buf off ev =
     (if length buf < off + 12 \<or> length buf < off + totalLength_at buf off then Some ev
      else if totalLength_at buf off = 0 then None
      else sync_run pf buf (off + totalLength_at buf off)
             (if payloadLength_at buf off \<le> 0
                 \<or> parse_or_raw pf (TextDecoder_decode pf (payload_bytes buf off)) = JNull
              then ev
              else ev @ [parse_or_raw pf (TextDecoder_decode pf (payload_bytes buf off))]))"
  by pat_completeness auto
termination
  by (relation "measure (\<lambda>(pf, buf, off, ev). length buf - off)") auto

function async_run ::
  "platform \<Rightarrow> byte list \<Rightarrow> nat \<Rightarrow> json list \<Rightarrow> (nat \<times> json list) option" where
  "async_run pf buf off ys =
     (if length buf < off + 12 \<or> length buf < off + totalLength_at buf off then Some (off, ys)
      else if totalLength_at buf off = 0 then None
      else async_run pf buf (off + totalLength_at buf off)
             (if payloadLength_at buf off \<le> 0 then ys
              else ys @ [parse_or_raw pf (TextDecoder_decode pf (payload_bytes buf off))]))"
  by pat_completeness auto
termination
  by (relation "measure (\<lambda>(pf, buf, off, ys). length buf - off)") auto

declare sync_run.simps [simp del]
declare async_run.simps [simp del]

text \<open>The payloads a consumer of \<^verbatim>\<open>parseEventStream\<close> can get: those that are not null.\<close>

definition non_null :: "json list \<Rightarrow> json list" where
  "non_null ys = filter (\<lambda>d. d \<noteq> JNull) ys"

section \<open>The frame decoder and the two parsers\<close>

text \<open>The decoder by cases on the frame at the offset; it never throws.\<close>

lemma parseEventMessage_cases:
  "parseEventMessage pf buf off =
    (if length buf < off + 12 \<or> length buf < off + totalLength_at buf off then Inr Incomplete
     else if payloadLength_at buf off \<le> 0
       then Inr (Message JNull (off + totalLength_at buf off))
     else Inr (Message (parse_or_raw pf (TextDecoder_decode pf (payload_bytes buf off)))
            (off + totalLength_at buf off)))"
  by (auto simp: parseEventMessage_def DataView_getUint32_def Uint8Array_view_def
      totalLength_at_def headersLength_at_def payloadLength_at_def payloadOffset_at_def
      payload_bytes_def Let_def)

lemma parseEventMessage_no_error: "parseEventMessage pf buf off \<noteq> Inl err"
  by (simp add: parseEventMessage_cases)

lemma payload_in_bounds:
  assumes "off + totalLength_at buf off \<le> length buf" and "0 < payloadLength_at buf off"
  shows "payloadOffset_at buf off + nat (payloadLength_at buf off) \<le> length buf"
  using assms by (simp add: payloadLength_at_def payloadOffset_at_def)

text \<open>The two lengths read from a prelude are unsigned 32-bit values.\<close>

lemma be_uint_snoc: "be_uint (bs @ [b]) = be_uint bs * 256 + unat b"
  by (simp add: be_uint_def)

lemma be_uint_bound: "be_uint bs < 256 ^ length bs"
proof (induction bs rule: rev_induct)
  case Nil
  show ?case by (simp add: be_uint_def)
next
  case (snoc b bs)
  have "unat b < 256" using unsigned_less [of b, where ?'a = nat] by simp
  with snoc.IH show ?case by (simp add: be_uint_snoc)
qed

lemma lengths_are_u32:
  "totalLength_at buf off < 2 ^ 32" "headersLength_at buf off < 2 ^ 32"
proof -
  have "be_uint (take 4 bs) < 2 ^ 32" for bs :: "byte list"
  proof -
    have "be_uint (take 4 bs) < 256 ^ length (take 4 bs)" by (rule be_uint_bound)
    also have "(256 :: nat) ^ length (take 4 bs) \<le> 256 ^ 4"
      by (rule power_increasing) simp_all
    finally show ?thesis by simp
  qed
  then show "totalLength_at buf off < 2 ^ 32" "headersLength_at buf off < 2 ^ 32"
    by (simp_all add: totalLength_at_def headersLength_at_def)
qed

text \<open>One round of each loop.\<close>

lemma sync_while_cases:
  "parseEventStream_while pf buf off ev =
    (if length buf < off + 12 \<or> length buf < off + totalLength_at buf off then Some (Inr ev)
     else parseEventStream_while pf buf (off + totalLength_at buf off)
       (if payloadLength_at buf off \<le> 0
           \<or> parse_or_raw pf (TextDecoder_decode pf (payload_bytes buf off)) = JNull
        then ev
        else ev @ [parse_or_raw pf (TextDecoder_decode pf (payload_bytes buf off))]))"
  by (subst parseEventStream_while.simps) (auto simp: parseEventMessage_cases)

lemma async_while_cases:
  "parseEventStreamAsync_while pf buf off ys =
    (if length buf < off + 12 \<or> length buf < off + totalLength_at buf off
     then Some (Inr (off, ys))
     else parseEventStreamAsync_while pf buf (off + totalLength_at buf off)
       (if payloadLength_at buf off \<le> 0 then ys
        else ys @ [parse_or_raw pf (TextDecoder_decode pf (payload_bytes buf off))]))"
  by (subst parseEventStreamAsync_while.simps)
     (auto simp: DataView_getUint32_def slice_def totalLength_at_def headersLength_at_def
       payloadLength_at_def payloadOffset_at_def payload_bytes_def Let_def)

lemma sync_stop:
  "length buf < off + 12 \<or> length buf < off + totalLength_at buf off \<Longrightarrow>
   parseEventStream_while pf buf off ev = Some (Inr ev)"
  by (subst sync_while_cases) simp

lemma sync_go:
  "off + 12 \<le> length buf \<Longrightarrow> off + totalLength_at buf off \<le> length buf \<Longrightarrow>
   parseEventStream_while pf buf off ev =
   parseEventStream_while pf buf (off + totalLength_at buf off)
     (if payloadLength_at buf off \<le> 0
         \<or> parse_or_raw pf (TextDecoder_decode pf (payload_bytes buf off)) = JNull
      then ev
      else ev @ [parse_or_raw pf (TextDecoder_decode pf (payload_bytes buf off))])"
  by (subst sync_while_cases) simp

lemma async_stop:
  "length buf < off + 12 \<or> length buf < off + totalLength_at buf off \<Longrightarrow>
   parseEventStreamAsync_while pf buf off ys = Some (Inr (off, ys))"
  by (subst async_while_cases) simp

lemma async_go:
  "off + 12 \<le> length buf \<Longrightarrow> off + totalLength_at buf off \<le> length buf \<Longrightarrow>
   parseEventStreamAsync_while pf buf off ys =
   parseEventStreamAsync_while pf buf (off + totalLength_at buf off)
     (if payloadLength_at buf off \<le> 0 then ys
      else ys @ [parse_or_raw pf (TextDecoder_decode pf (payload_bytes buf off))])"
  by (subst async_while_cases) simp

text \<open>Evaluation of the example frames.\<close>

lemma ascii_decode_null: "ascii_decode [0x6E, 0x75, 0x6C, 0x6C] = ''null''"
  by code_simp

lemma ascii_decode_hi: "ascii_decode [0x68, 0x69] = ''hi''"
  by code_simp

lemmas frame_eval =
  totalLength_at_def headersLength_at_def payloadLength_at_def payloadOffset_at_def
  payload_bytes_def be_uint_def parse_or_raw_def example_platform_def slice_from_def
  ascii_decode_null ascii_decode_hi

text \<open>
  A frame that declares the length 0 is complete as soon as its prelude is there, and the
  next offset is the offset itself: the loop of \<^verbatim>\<open>parseEventStream\<close> never leaves it.
\<close>

lemma sync_while_Some_not_stuck:
  "parseEventStream_while pf buf off ev = Some r \<Longrightarrow>
   \<not> (off + 12 \<le> length buf \<and> totalLength_at buf off = 0)"
proof (rule parseEventStream_while.raw_induct
    [where P = "\<lambda>pf buf off ev r. \<not> (off + 12 \<le> length buf \<and> totalLength_at buf off = 0)"])
  fix f pf buf off ev r
  assume IH: "\<And>pf buf off ev r. f pf buf off ev = Some r \<Longrightarrow>
                \<not> (off + 12 \<le> length buf \<and> totalLength_at buf off = 0)"
    and body: "(if off < length buf then
        (case parseEventMessage pf buf off of
           Inl e \<Rightarrow> Some (Inl e)
         | Inr Incomplete \<Rightarrow> Some (Inr ev)
         | Inr (Message data nextOffset) \<Rightarrow>
             f pf buf nextOffset (if data \<noteq> JNull then ev @ [data] else ev))
      else Some (Inr ev)) = Some r"
  show "\<not> (off + 12 \<le> length buf \<and> totalLength_at buf off = 0)"
  proof
    assume stuck: "off + 12 \<le> length buf \<and> totalLength_at buf off = 0"
    then have "parseEventMessage pf buf off = Inr (Message JNull off)"
      by (simp add: parseEventMessage_cases payloadLength_at_def)
    with stuck body have "f pf buf off ev = Some r" by simp
    from IH [OF this] stuck show False by simp
  qed
qed

lemma sync_while_diverges:
  assumes "off + 12 \<le> length buf" and "totalLength_at buf off = 0"
  shows "parseEventStream_while pf buf off ev = None"
proof (cases "parseEventStream_while pf buf off ev")
  case None
  then show ?thesis .
next
  case (Some r)
  from sync_while_Some_not_stuck [OF this] assms show ?thesis by simp
qed

text \<open>The same for the loop of \<^verbatim>\<open>parseEventStreamAsync\<close>.\<close>

lemma async_while_Some_not_stuck:
  "parseEventStreamAsync_while pf buf off ys = Some r \<Longrightarrow>
   \<not> (off + 12 \<le> length buf \<and> totalLength_at buf off = 0)"
proof (rule parseEventStreamAsync_while.raw_induct
    [where P = "\<lambda>pf buf off ys r. \<not> (off + 12 \<le> length buf \<and> totalLength_at buf off = 0)"])
  fix f pf buffer offset yielded r
  assume IH: "\<And>pf buf off ys r. f pf buf off ys = Some r \<Longrightarrow>
                \<not> (off + 12 \<le> length buf \<and> totalLength_at buf off = 0)"
    and body: "(if offset < length buffer then
        (if offset + 12 > length buffer then Some (Inr (offset, yielded))
         else
           (case DataView_getUint32 buffer offset 0 of
              Inl e \<Rightarrow> Some (Inl e)
            | Inr totalLength \<Rightarrow>
           (if offset + totalLength > length buffer then Some (Inr (offset, yielded))
            else
              (case DataView_getUint32 buffer offset 4 of
                 Inl e \<Rightarrow> Some (Inl e)
               | Inr headersLength \<Rightarrow>
                 (let payloadOffset = offset + 12 + headersLength;
                      payloadLength = int totalLength - int headersLength - 16
                  in f pf buffer (offset + totalLength)
                       (if payloadLength > 0
                        then yielded @
                          [parse_or_raw pf (TextDecoder_decode pf
                             (slice buffer payloadOffset (payloadOffset + nat payloadLength)))]
                        else yielded))))))
      else Some (Inr (offset, yielded))) = Some r"
  show "\<not> (offset + 12 \<le> length buffer \<and> totalLength_at buffer offset = 0)"
  proof
    assume stuck: "offset + 12 \<le> length buffer \<and> totalLength_at buffer offset = 0"
    then have "DataView_getUint32 buffer offset 0 = Inr 0"
      "\<exists>h. DataView_getUint32 buffer offset 4 = Inr h"
      by (simp_all add: DataView_getUint32_def totalLength_at_def)
    with stuck body have "f pf buffer offset yielded = Some r"
      by (auto simp: Let_def)
    from IH [OF this] stuck show False by simp
  qed
qed

lemma async_while_diverges:
  assumes "off + 12 \<le> length buf" and "totalLength_at buf off = 0"
  shows "parseEventStreamAsync_while pf buf off ys = None"
proof (cases "parseEventStreamAsync_while pf buf off ys")
  case None
  then show ?thesis .
next
  case (Some r)
  from async_while_Some_not_stuck [OF this] assms show ?thesis by simp
qed

text \<open>Each loop is its total function: it returns unless it meets such a frame.\<close>

lemma sync_while_run:
  "parseEventStream_while pf buf off ev = map_option Inr (sync_run pf buf off ev)"
proof (induction pf buf off ev rule: sync_run.induct)
  case (1 pf buf off ev)
  show ?case
  proof (cases "length buf < off + 12 \<or> length buf < off + totalLength_at buf off")
    case True
    then show ?thesis
      by (simp add: sync_stop sync_run.simps)
  next
    case complete: False
    show ?thesis
    proof (cases "totalLength_at buf off = 0")
      case True
      with complete show ?thesis
        by (simp add: sync_while_diverges sync_run.simps)
    next
      case False
      from complete have "off + 12 \<le> length buf" "off + totalLength_at buf off \<le> length buf"
        by simp_all
      then have "parseEventStream_while pf buf off ev =
          parseEventStream_while pf buf (off + totalLength_at buf off)
            (if payloadLength_at buf off \<le> 0
                \<or> parse_or_raw pf (TextDecoder_decode pf (payload_bytes buf off)) = JNull
             then ev
             else ev @ [parse_or_raw pf (TextDecoder_decode pf (payload_bytes buf off))])"
        by (rule sync_go)
      also have "\<dots> = map_option Inr (sync_run pf buf (off + totalLength_at buf off)
            (if payloadLength_at buf off \<le> 0
                \<or> parse_or_raw pf (TextDecoder_decode pf (payload_bytes buf off)) = JNull
             then ev
             else ev @ [parse_or_raw pf (TextDecoder_decode pf (payload_bytes buf off))]))"
        using complete False by (intro "1.IH") simp_all
      also have "\<dots> = map_option Inr (sync_run pf buf off ev)"
        using complete False by (subst (2) sync_run.simps) simp
      finally show ?thesis .
    qed
  qed
qed

lemma async_while_run:
  "parseEventStreamAsync_while pf buf off ys = map_option Inr (async_run pf buf off ys)"
proof (induction pf buf off ys rule: async_run.induct)
  case (1 pf buf off ys)
  show ?case
  proof (cases "length buf < off + 12 \<or> length buf < off + totalLength_at buf off")
    case True
    then show ?thesis
      by (simp add: async_stop async_run.simps)
  next
    case complete: False
    show ?thesis
    proof (cases "totalLength_at buf off = 0")
      case True
      with complete show ?thesis
        by (simp add: async_while_diverges async_run.simps)
    next
      case False
      from complete have "off + 12 \<le> length buf" "off + totalLength_at buf off \<le> length buf"
        by simp_all
      then have "parseEventStreamAsync_while pf buf off ys =
          parseEventStreamAsync_while pf buf (off + totalLength_at buf off)
            (if payloadLength_at buf off \<le> 0 then ys
             else ys @ [parse_or_raw pf (TextDecoder_decode pf (payload_bytes buf off))])"
        by (rule async_go)
      also have "\<dots> = map_option Inr (async_run pf buf (off + totalLength_at buf off)
            (if payloadLength_at buf off \<le> 0 then ys
             else ys @ [parse_or_raw pf (TextDecoder_decode pf (payload_bytes buf off))]))"
        using complete False by (intro "1.IH") simp_all
      also have "\<dots> = map_option Inr (async_run pf buf off ys)"
        using complete False by (subst (2) async_run.simps) simp
      finally show ?thesis .
    qed
  qed
qed

text \<open>
  A sufficient condition for \<^verbatim>\<open>parseEventStream\<close> to return: at no offset of the buffer
  with twelve bytes left, a frame start or not, do the first four bytes read as the total
  length 0.
\<close>

lemma sync_run_returns:
  assumes "\<And>i. i + 12 \<le> length buf \<Longrightarrow> totalLength_at buf i \<noteq> 0"
  shows "\<exists>evs. sync_run pf buf off ev = Some evs"
  using assms
proof (induction pf buf off ev rule: sync_run.induct)
  case (1 pf buf off ev)
  show ?case
  proof (cases "length buf < off + 12 \<or> length buf < off + totalLength_at buf off")
    case True
    then show ?thesis by (simp add: sync_run.simps)
  next
    case False
    then have nz: "totalLength_at buf off \<noteq> 0" using "1.prems" by simp
    have "\<exists>evs. sync_run pf buf (off + totalLength_at buf off)
            (if payloadLength_at buf off \<le> 0
                \<or> parse_or_raw pf (TextDecoder_decode pf (payload_bytes buf off)) = JNull
             then ev
             else ev @ [parse_or_raw pf (TextDecoder_decode pf (payload_bytes buf off))])
          = Some evs"
      using False nz "1.prems" by (intro "1.IH") simp_all
    then show ?thesis
      using False nz by (subst sync_run.simps) simp
  qed
qed

lemma parseEventStream_returns:
  assumes "\<And>i. i + 12 \<le> length buf \<Longrightarrow> totalLength_at buf i \<noteq> 0"
  shows "\<exists>evs. parseEventStream pf buf = Some (Inr evs)"
  using sync_run_returns [OF assms, of pf 0 "[]"]
  by (auto simp: parseEventStream_def sync_while_run)

section \<open>One call against chunks\<close>

text \<open>A frame read in a buffer with its first bytes dropped, and in a longer buffer.\<close>

lemma frame_at_drop:
  "totalLength_at (drop c buf) off = totalLength_at buf (c + off)"
  "headersLength_at (drop c buf) off = headersLength_at buf (c + off)"
  "payloadLength_at (drop c buf) off = payloadLength_at buf (c + off)"
  "payload_bytes (drop c buf) off = payload_bytes buf (c + off)"
  by (simp_all add: totalLength_at_def headersLength_at_def payloadLength_at_def
      payloadOffset_at_def payload_bytes_def ac_simps)

lemma frame_at_append:
  assumes "off + 12 \<le> length buf"
  shows "totalLength_at (buf @ ext) off = totalLength_at buf off"
    and "headersLength_at (buf @ ext) off = headersLength_at buf off"
    and "payloadLength_at (buf @ ext) off = payloadLength_at buf off"
  using assms
  by (simp_all add: totalLength_at_def headersLength_at_def payloadLength_at_def)

lemma payload_bytes_append:
  assumes "off + 12 \<le> length buf" and "off + totalLength_at buf off \<le> length buf"
  shows "payload_bytes (buf @ ext) off = payload_bytes buf off"
proof (cases "0 < payloadLength_at buf off")
  case True
  from payload_in_bounds [OF assms(2) True]
  have "payloadOffset_at buf off + nat (payloadLength_at buf off) \<le> length buf" .
  moreover have "payloadOffset_at (buf @ ext) off = payloadOffset_at buf off"
    using assms(1) by (simp add: payloadOffset_at_def frame_at_append)
  ultimately show ?thesis
    using assms(1) by (simp add: payload_bytes_def frame_at_append)
next
  case False
  then show ?thesis
    using assms(1) by (simp add: payload_bytes_def frame_at_append)
qed

text \<open>Scanning the kept tail of a buffer is scanning the buffer from where the tail starts.\<close>

lemma async_run_drop:
  "async_run pf (drop c buf) off ys
   = map_option (\<lambda>(a, ys'). (a - c, ys')) (async_run pf buf (c + off) ys)"
proof (induction pf buf a \<equiv> "c + off" ys arbitrary: off rule: async_run.induct)
  case (1 pf buf ys)
  have len: "length (drop c buf) < off + 12
      \<or> length (drop c buf) < off + totalLength_at buf (c + off)
      \<longleftrightarrow> length buf < c + off + 12 \<or> length buf < c + off + totalLength_at buf (c + off)"
    by auto
  show ?case
  proof (cases "length buf < c + off + 12 \<or> length buf < c + off + totalLength_at buf (c + off)")
    case True
    then show ?thesis
      using len
      by (subst async_run.simps, subst (2) async_run.simps) (auto simp: frame_at_drop)
  next
    case complete: False
    show ?thesis
    proof (cases "totalLength_at buf (c + off) = 0")
      case True
      with complete show ?thesis
        using len
        by (subst async_run.simps, subst (2) async_run.simps) (auto simp: frame_at_drop)
    next
      case False
      let ?ys = "if payloadLength_at buf (c + off) \<le> 0 then ys
         else ys @ [parse_or_raw pf (TextDecoder_decode pf (payload_bytes buf (c + off)))]"
      have "async_run pf (drop c buf) off ys
          = async_run pf (drop c buf) (off + totalLength_at buf (c + off)) ?ys"
        using complete False len
        by (subst async_run.simps) (auto simp: frame_at_drop)
      also have "\<dots> = map_option (\<lambda>(a, ys'). (a - c, ys'))
          (async_run pf buf (c + (off + totalLength_at buf (c + off))) ?ys)"
        using complete False by (intro "1.hyps") (simp_all add: add.assoc)
      also have "\<dots> = map_option (\<lambda>(a, ys'). (a - c, ys')) (async_run pf buf (c + off) ys)"
        using complete False by (subst (2) async_run.simps) (simp add: add.assoc)
      finally show ?thesis .
    qed
  qed
qed

text \<open>Where a scan stops: not before it started, within the buffer, at an incomplete frame.\<close>

lemma async_run_stops:
  assumes "async_run pf buf off ys = Some (a, ys')" and "off \<le> length buf"
  shows "off \<le> a \<and> a \<le> length buf
    \<and> (length buf < a + 12 \<or> length buf < a + totalLength_at buf a)"
  using assms
proof (induction pf buf off ys rule: async_run.induct)
  case (1 pf buf off ys)
  show ?case
  proof (cases "length buf < off + 12 \<or> length buf < off + totalLength_at buf off")
    case True
    with "1.prems" show ?thesis by (simp add: async_run.simps)
  next
    case complete: False
    then have nz: "totalLength_at buf off \<noteq> 0"
      using "1.prems"(1) by (auto simp: async_run.simps split: if_splits)
    let ?ys = "if payloadLength_at buf off \<le> 0 then ys
         else ys @ [parse_or_raw pf (TextDecoder_decode pf (payload_bytes buf off))]"
    have "async_run pf buf (off + totalLength_at buf off) ?ys = Some (a, ys')"
      using "1.prems"(1) complete nz by (subst (asm) async_run.simps) simp
    moreover have "off + totalLength_at buf off \<le> length buf"
      using complete by simp
    ultimately have "off + totalLength_at buf off \<le> a \<and> a \<le> length buf
        \<and> (length buf < a + 12 \<or> length buf < a + totalLength_at buf a)"
      using complete nz by (intro "1.IH") simp_all
    then show ?thesis by simp
  qed
qed

text \<open>
  The one-call loop on a buffer follows the chunked loop on any beginning of that buffer,
  leaving out the null payloads, up to the frame the beginning does not hold in full.
\<close>

lemma non_null_snoc: "non_null (ys @ [d]) = (if d = JNull then non_null ys else non_null ys @ [d])"
  by (simp add: non_null_def)

lemma sync_run_follows_async_run:
  "sync_run pf (buf @ ext) off (non_null ys)
   = (case async_run pf buf off ys of
        None \<Rightarrow> None
      | Some (a, ys') \<Rightarrow> sync_run pf (buf @ ext) a (non_null ys'))"
proof (induction pf buf off ys rule: async_run.induct)
  case (1 pf buf off ys)
  show ?case
  proof (cases "length buf < off + 12 \<or> length buf < off + totalLength_at buf off")
    case True
    then show ?thesis by (subst async_run.simps) simp
  next
    case complete: False
    then have here: "off + 12 \<le> length buf" "off + totalLength_at buf off \<le> length buf"
      by simp_all
    note same = frame_at_append [OF here(1), of ext] payload_bytes_append [OF here, of ext]
    show ?thesis
    proof (cases "totalLength_at buf off = 0")
      case True
      with complete have "async_run pf buf off ys = None"
        by (subst async_run.simps) simp
      moreover have "sync_run pf (buf @ ext) off (non_null ys) = None"
        using here True by (subst sync_run.simps) (simp add: same)
      ultimately show ?thesis by simp
    next
      case False
      let ?d = "parse_or_raw pf (TextDecoder_decode pf (payload_bytes buf off))"
      let ?ys = "if payloadLength_at buf off \<le> 0 then ys else ys @ [?d]"
      have "sync_run pf (buf @ ext) off (non_null ys)
          = sync_run pf (buf @ ext) (off + totalLength_at buf off) (non_null ?ys)"
        using here False by (subst sync_run.simps) (auto simp: same non_null_snoc)
      also have "\<dots> = (case async_run pf buf (off + totalLength_at buf off) ?ys of
            None \<Rightarrow> None
          | Some (a, ys') \<Rightarrow> sync_run pf (buf @ ext) a (non_null ys'))"
        using complete False by (intro "1.IH") simp_all
      also have "async_run pf buf (off + totalLength_at buf off) ?ys = async_run pf buf off ys"
        using complete False by (subst (2) async_run.simps) simp
      finally show ?thesis .
    qed
  qed
qed

text \<open>
  The reader, when its buffer is the tail from offset \<open>c\<close> of the bytes \<open>buf\<close> received so
  far and the frame at \<open>c\<close> is not yet complete.
\<close>

lemma reader_agrees:
  assumes "c \<le> length buf"
    and "length buf < c + 12 \<or> length buf < c + totalLength_at buf c"
  shows "map_option (map_sum id non_null) (parseEventStreamAsync_read pf (drop c buf) chunks ys)
    = map_option Inr (sync_run pf (buf @ concat chunks) c (non_null ys))"
  using assms
proof (induction chunks arbitrary: buf c ys)
  case Nil
  then show ?case by (simp add: sync_run.simps)
next
  case (Cons chunk chunks)
  define all where "all = buf @ chunk"
  have tail: "drop c buf @ chunk = drop c all"
    using Cons.prems(1) by (simp add: all_def)
  have scan: "parseEventStreamAsync_while pf (drop c all) 0 ys
      = map_option Inr (map_option (\<lambda>(a, ys'). (a - c, ys')) (async_run pf all c ys))"
    using async_run_drop [of pf c all 0 ys] by (simp add: async_while_run)
  have follow: "sync_run pf (buf @ concat (chunk # chunks)) c (non_null ys)
      = (case async_run pf all c ys of
           None \<Rightarrow> None
         | Some (a, ys') \<Rightarrow> sync_run pf (all @ concat chunks) a (non_null ys'))"
    using sync_run_follows_async_run [of pf all "concat chunks" c ys] by (simp add: all_def)
  have step: "parseEventStreamAsync_read pf (drop c buf) (chunk # chunks) ys
      = (case parseEventStreamAsync_while pf (drop c all) 0 ys of
           None \<Rightarrow> None
         | Some (Inl e) \<Rightarrow> Some (Inl e)
         | Some (Inr (offset, yielded')) \<Rightarrow>
             parseEventStreamAsync_read pf
               (if offset > 0 then slice_from (drop c all) offset else drop c all)
               chunks yielded')"
    by (simp only: parseEventStreamAsync_read.simps Let_def tail)
  show ?case
  proof (cases "async_run pf all c ys")
    case None
    then show ?thesis
      unfolding step using scan follow by simp
  next
    case (Some r)
    obtain a ys' where r: "r = (a, ys')" by (cases r)
    have c_le: "c \<le> length all" using Cons.prems(1) by (simp add: all_def)
    from async_run_stops [OF Some [unfolded r] c_le]
    have stops: "c \<le> a" "a \<le> length all"
      "length all < a + 12 \<or> length all < a + totalLength_at all a"
      by simp_all
    have kept: "(if 0 < a - c then slice_from (drop c all) (a - c) else drop c all) = drop a all"
    proof (cases "0 < a - c")
      case True
      have "slice_from (drop c all) (a - c) = drop (a - c + c) all"
        by (simp only: slice_from_def drop_drop)
      also have "a - c + c = a" using stops(1) by simp
      finally show ?thesis using True by (simp only: if_True)
    next
      case False
      then have "a = c" using stops(1) by simp
      with False show ?thesis by (simp only: if_False)
    qed
    have "parseEventStreamAsync_while pf (drop c all) 0 ys = Some (Inr (a - c, ys'))"
      using scan Some r by simp
    then have next_round: "parseEventStreamAsync_read pf (drop c buf) (chunk # chunks) ys
        = parseEventStreamAsync_read pf (drop a all) chunks ys'"
      unfolding step using kept by simp
    have "map_option (map_sum id non_null)
          (parseEventStreamAsync_read pf (drop c buf) (chunk # chunks) ys)
        = map_option (map_sum id non_null)
          (parseEventStreamAsync_read pf (drop a all) chunks ys')"
      by (simp only: next_round)
    also have "\<dots> = map_option Inr (sync_run pf (all @ concat chunks) a (non_null ys'))"
      using stops(2,3) by (rule Cons.IH)
    also have "\<dots> = map_option Inr (sync_run pf (buf @ concat (chunk # chunks)) c (non_null ys))"
      by (simp only: follow Some r option.case prod.case)
    finally show ?thesis .
  qed
qed

text \<open>
  However a buffer is cut into chunks, \<^verbatim>\<open>parseEventStream\<close> on the buffer and
  \<^verbatim>\<open>parseEventStreamAsync\<close> on the chunks both return or both do not return, and when
  they return the one call gives what the chunks give without the null payloads.
\<close>

lemma parsers_agree_up_to_null:
  "parseEventStream pf (concat chunks)
   = map_option (map_sum id non_null) (parseEventStreamAsync pf chunks)"
  using reader_agrees [of 0 "[]" pf chunks "[]"]
  by (simp add: parseEventStream_def parseEventStreamAsync_def sync_while_run non_null_def)

lemma parsers_agree_without_null:
  assumes "parseEventStreamAsync pf chunks = Some (Inr ys)" and "JNull \<notin> set ys"
  shows "parseEventStream pf (concat chunks) = Some (Inr ys)"
proof -
  from assms(2) have "non_null ys = ys"
    unfolding non_null_def by (induction ys) auto
  with assms(1) show ?thesis
    by (simp add: parsers_agree_up_to_null)
qed

text \<open>Neither parser throws.\<close>

lemma parsers_never_throw:
  "parseEventStream pf buf \<noteq> Some (Inl e)"
  "parseEventStreamAsync pf chunks \<noteq> Some (Inl e)"
proof -
  show "parseEventStream pf buf \<noteq> Some (Inl e)"
    by (auto simp: parseEventStream_def sync_while_run)
  have "map_option (map_sum id non_null) (parseEventStreamAsync pf chunks) \<noteq> Some (Inl e)"
    by (auto simp: parsers_agree_up_to_null [symmetric] parseEventStream_def sync_while_run)
  then show "parseEventStreamAsync pf chunks \<noteq> Some (Inl e)"
    by auto
qed

section \<open>The translator and the orchestrator\<close>

text \<open>
  What the translator returns for a payload on which it does not throw: deltas only, or
  the events of one tool invocation.
\<close>

lemma case_content_string:
  "v = Some (JStr t) \<Longrightarrow> (case v of Some (JStr text) \<Rightarrow> A text | _ \<Rightarrow> B) = A t"
  by simp

lemma case_content_other:
  "(\<And>t. v \<noteq> Some (JStr t)) \<Longrightarrow> (case v of Some (JStr text) \<Rightarrow> A text | _ \<Rightarrow> B) = B"
  by (cases v; simp split: json.split)

lemma is_string_iff: "is_string v \<longleftrightarrow> (\<exists>t. v = Some (JStr t))"
  by (cases v rule: is_string.cases) simp_all

lemma convert_shape:
  assumes "\<not> translator_throws eventData"
  shows "\<exists>evs. convertKiroEventToAnthropic pf uuid eventData idx opn = Inr evs
    \<and> (list_all plain evs
       \<or> (\<exists>b ds. list_all plain ds
            \<and> evs = (if opn then [Content_block_stop idx] else [])
                     @ Content_block_start (Suc idx) b # ds @ [Content_block_stop (Suc idx)]))"
proof (cases "\<exists>t. get eventData ''content'' = Some (JStr t)")
  case True
  then obtain t where "get eventData ''content'' = Some (JStr t)" by blast
  with assms show ?thesis
    by (simp add: convertKiroEventToAnthropic_def translator_throws_def)
next
  case False
  then have other: "\<And>t. get eventData ''content'' \<noteq> Some (JStr t)" by blast
  from False have "\<not> is_string (get eventData ''content'')"
    by (simp add: is_string_iff)
  then show ?thesis
    unfolding convertKiroEventToAnthropic_def case_content_other [OF other]
    using assms
    by (auto simp: Let_def translator_throws_def split: option.splits)
qed

text \<open>The translator throws on exactly those payloads, whatever its other arguments.\<close>

lemma convert_throws:
  assumes "translator_throws eventData"
  shows "convertKiroEventToAnthropic pf uuid eventData idx opn = Inl TypeError"
proof (cases "eventData = JNull")
  case True
  then show ?thesis by (simp add: convertKiroEventToAnthropic_def)
next
  case False
  with assms have branch: "get eventData ''usage'' \<noteq> None" "get eventData ''unit'' \<noteq> None"
    "\<not> is_string (get eventData ''content'')"
    "\<not> truthy_opt (get eventData ''assistantResponseEvent'')"
    and throws: "ToString_throws_opt (get eventData ''usage'')
      \<or> ToString_throws_opt (or_else (get eventData ''unitPlural'') (get eventData ''unit''))"
    by (auto simp: translator_throws_def)
  from branch(3) have other: "\<And>t. get eventData ''content'' \<noteq> Some (JStr t)"
    by (simp add: is_string_iff)
  show ?thesis
    unfolding convertKiroEventToAnthropic_def case_content_other [OF other]
    using False branch throws by simp
qed

lemma convert_throws_iff:
  "(\<exists>e. convertKiroEventToAnthropic pf uuid eventData idx opn = Inl e)
   \<longleftrightarrow> translator_throws eventData"
proof
  assume err: "\<exists>e. convertKiroEventToAnthropic pf uuid eventData idx opn = Inl e"
  show "translator_throws eventData"
  proof (rule ccontr)
    assume "\<not> translator_throws eventData"
    from convert_shape [OF this, of pf uuid idx opn]
    obtain evs where "convertKiroEventToAnthropic pf uuid eventData idx opn = Inr evs"
      by blast
    with err show False by simp
  qed
next
  assume "translator_throws eventData"
  then show "\<exists>e. convertKiroEventToAnthropic pf uuid eventData idx opn = Inl e"
    using convert_throws by blast
qed

lemma not_throws_not_null: "\<not> translator_throws eventData \<Longrightarrow> eventData \<noteq> JNull"
  by (auto simp: translator_throws_def)

text \<open>Deltas leave the blocks and the orchestrator's flags as they are.\<close>

lemma blocks_matched_plain:
  "list_all plain evs \<Longrightarrow> blocks_matched opn (evs @ tail) = blocks_matched opn tail"
proof (induction evs)
  case Nil
  show ?case by simp
next
  case (Cons e evs)
  then show ?case by (cases e) simp_all
qed

lemma open_block_plain:
  "list_all plain evs \<Longrightarrow> open_block opn (evs @ tail) = open_block opn tail"
proof (induction evs)
  case Nil
  show ?case by simp
next
  case (Cons e evs)
  then show ?case by (cases e) simp_all
qed

lemma filter_start_plain: "list_all plain evs \<Longrightarrow> filter is_message_start evs = []"
proof (induction evs)
  case Nil
  show ?case by simp
next
  case (Cons e evs)
  then show ?case by (cases e) simp_all
qed

lemma stop_notin_plain: "list_all plain evs \<Longrightarrow> Message_stop \<notin> set evs"
proof (induction evs)
  case Nil
  show ?case by simp
next
  case (Cons e evs)
  then show ?case by (cases e) simp_all
qed

lemma track_plain_flags:
  "list_all plain evs \<Longrightarrow>
   hasOpenBlock (foldl track s evs) = hasOpenBlock s
   \<and> hasStarted (foldl track s evs) = hasStarted s
   \<and> contentBlockIndex (foldl track s evs) = contentBlockIndex s"
proof (induction evs arbitrary: s)
  case Nil
  show ?case by simp
next
  case (Cons e evs)
  then show ?case by (cases e) simp_all
qed

lemma track_fixed: 
  "hasStarted (foldl track s evs) = hasStarted s
   \<and> contentBlockIndex (foldl track s evs) = contentBlockIndex s"
proof (induction evs arbitrary: s)
  case Nil
  show ?case by simp
next
  case (Cons e evs)
  show ?case by (cases e) (simp_all add: Cons.IH)
qed

lemma track_outputTokens:
  "outputTokens (foldl track s evs) = last_truthy_output_tokens (outputTokens s) evs"
proof (induction evs arbitrary: s)
  case Nil
  show ?case by simp
next
  case (Cons e evs)
  show ?case by (cases e) (simp_all add: Cons.IH)
qed

lemma last_truthy_append:
  "last_truthy_output_tokens d (xs @ ys)
   = last_truthy_output_tokens (last_truthy_output_tokens d xs) ys"
proof (induction xs arbitrary: d)
  case Nil
  show ?case by simp
next
  case (Cons e xs)
  show ?case by (cases e) (simp_all add: Cons.IH)
qed

lemma open_block_append: "open_block opn (xs @ ys) = open_block (open_block opn xs) ys"
proof (induction xs arbitrary: opn)
  case Nil
  show ?case by simp
next
  case (Cons e xs)
  show ?case by (cases e) (simp_all add: Cons.IH)
qed

text \<open>
  One payload on which the translator does not throw, once the stream has started: the
  events yielded take the blocks from what the variables say before to what they say after.
\<close>

lemma convert_step:
  assumes "\<not> translator_throws eventData"
  obtains evs where
    "convertKiroEventToAnthropic pf uuid eventData (contentBlockIndex s) (hasOpenBlock s) = Inr evs"
    "open_state (foldl track s evs) = open_block (open_state s) evs"
    "\<And>tail. blocks_matched (open_state s) (evs @ tail)
        = blocks_matched (open_state (foldl track s evs)) tail"
    "filter is_message_start evs = []"
    "Message_stop \<notin> set evs"
proof -
  from convert_shape [OF assms, of pf uuid "contentBlockIndex s" "hasOpenBlock s"]
  obtain evs where conv:
    "convertKiroEventToAnthropic pf uuid eventData (contentBlockIndex s) (hasOpenBlock s) = Inr evs"
    and shape: "list_all plain evs
       \<or> (\<exists>b ds. list_all plain ds
            \<and> evs = (if hasOpenBlock s then [Content_block_stop (contentBlockIndex s)] else [])
                     @ Content_block_start (Suc (contentBlockIndex s)) b # ds
                     @ [Content_block_stop (Suc (contentBlockIndex s))])"
    by blast
  from shape show thesis
  proof
    assume p: "list_all plain evs"
    then have st: "open_state (foldl track s evs) = open_state s"
      by (simp add: open_state_def track_plain_flags)
    show thesis
    proof (rule that [OF conv])
      show "open_state (foldl track s evs) = open_block (open_state s) evs"
        using open_block_plain [OF p, of "open_state s" "[]"] st by simp
      show "\<And>tail. blocks_matched (open_state s) (evs @ tail)
        = blocks_matched (open_state (foldl track s evs)) tail"
        using p st by (simp add: blocks_matched_plain)
      show "filter is_message_start evs = []" using p by (rule filter_start_plain)
      show "Message_stop \<notin> set evs" using p by (rule stop_notin_plain)
    qed
  next
    assume "\<exists>b ds. list_all plain ds
            \<and> evs = (if hasOpenBlock s then [Content_block_stop (contentBlockIndex s)] else [])
                     @ Content_block_start (Suc (contentBlockIndex s)) b # ds
                     @ [Content_block_stop (Suc (contentBlockIndex s))]"
    then obtain b ds where p: "list_all plain ds"
      and evs: "evs = (if hasOpenBlock s then [Content_block_stop (contentBlockIndex s)] else [])
                     @ Content_block_start (Suc (contentBlockIndex s)) b # ds
                     @ [Content_block_stop (Suc (contentBlockIndex s))]"
      by blast
    have closed: "\<not> hasOpenBlock (foldl track s evs)"
      using p by (simp add: evs track_plain_flags)
    then have st: "open_state (foldl track s evs) = None"
      by (simp add: open_state_def)
    show thesis
    proof (rule that [OF conv])
      show "open_state (foldl track s evs) = open_block (open_state s) evs"
      proof -
        have "open_block (open_state s) evs = None"
          using p open_block_plain [OF p, of _ "[Content_block_stop (Suc (contentBlockIndex s))]"]
          by (simp add: evs)
        then show ?thesis by (simp only: st)
      qed
      show "blocks_matched (open_state s) (evs @ tail)
        = blocks_matched (open_state (foldl track s evs)) tail" for tail
      proof -
        have "blocks_matched (open_state s) (evs @ tail) = blocks_matched None tail"
          using p by (simp add: evs open_state_def blocks_matched_plain)
        then show ?thesis by (simp only: st)
      qed
      show "filter is_message_start evs = []" using p by (simp add: evs filter_start_plain)
      show "Message_stop \<notin> set evs" using p by (simp add: evs stop_notin_plain)
    qed
  qed
qed

lemma carries_refl: "hasStarted s \<Longrightarrow> carries s [] s"
  by (simp add: carries_def)

lemma carries_trans:
  assumes "carries s out s'" and "carries s' out' s''"
  shows "carries s (out @ out') s''"
  using assms
  by (simp add: carries_def open_block_append last_truthy_append)

lemma body_started:
  assumes "hasStarted s" and "\<not> translator_throws event"
  shows "\<exists>out s'. for_await_body pf messageId model uuid s event = (out, Inr s')
           \<and> carries s out s'"
proof -
  have "\<exists>evs.
      convertKiroEventToAnthropic pf uuid event (contentBlockIndex s) (hasOpenBlock s) = Inr evs
      \<and> open_state (foldl track s evs) = open_block (open_state s) evs
      \<and> (\<forall>tail. blocks_matched (open_state s) (evs @ tail)
            = blocks_matched (open_state (foldl track s evs)) tail)
      \<and> filter is_message_start evs = [] \<and> Message_stop \<notin> set evs"
    by (rule convert_step [OF assms(2), where pf = pf and uuid = uuid and s = s]) blast
  then obtain evs where
    conv: "convertKiroEventToAnthropic pf uuid event (contentBlockIndex s) (hasOpenBlock s) = Inr evs"
    and opn: "open_state (foldl track s evs) = open_block (open_state s) evs"
    and blocks: "\<forall>tail. blocks_matched (open_state s) (evs @ tail)
        = blocks_matched (open_state (foldl track s evs)) tail"
    and starts: "filter is_message_start evs = []"
    and stops: "Message_stop \<notin> set evs"
    by blast
  have "for_await_body pf messageId model uuid s event = (evs, Inr (foldl track s evs))"
    using assms(1) conv by (simp add: for_await_body_def)
  moreover have "carries s evs (foldl track s evs)"
    unfolding carries_def
    using assms(1) opn blocks starts stops
    by (simp add: track_fixed track_outputTokens)
  ultimately show ?thesis by blast
qed

lemma for_await_started:
  assumes "hasStarted s" and "\<not> list_ex translator_throws payloads"
  shows "\<exists>out s'. for_await pf messageId model k s payloads = (out, Inr s') \<and> carries s out s'"
  using assms
proof (induction payloads arbitrary: s k)
  case Nil
  then show ?case by (simp add: carries_refl)
next
  case (Cons p ps)
  from Cons.prems have "\<not> translator_throws p" by simp
  from body_started [OF Cons.prems(1) this]
  obtain out s' where
    body: "for_await_body pf messageId model (randomUUID pf k) s p = (out, Inr s')"
    and c1: "carries s out s'"
    by blast
  from c1 have "hasStarted s'" by (simp add: carries_def)
  moreover from Cons.prems have "\<not> list_ex translator_throws ps" by simp
  ultimately obtain out' s'' where
    rest: "for_await pf messageId model (Suc k) s' ps = (out', Inr s'')"
    and c2: "carries s' out' s''"
    using Cons.IH by blast
  have "for_await pf messageId model k s (p # ps) = (out @ out', Inr s'')"
    using body rest by simp
  with carries_trans [OF c1 c2] show ?case by blast
qed

text \<open>
  The whole loop from the initial variables, over payloads on none of which the translator
  throws.
\<close>

lemma for_await_initial:
  assumes "\<not> list_ex translator_throws payloads"
  shows "\<exists>out s'. for_await pf messageId model k initial_state payloads = (out, Inr s')
    \<and> open_state s' = open_block None out
    \<and> outputTokens s' = last_truthy_output_tokens (JNum 0) out
    \<and> Message_stop \<notin> set out
    \<and> (payloads = [] \<or>
        (\<exists>rest. out = Message_start messageId model # rest
           \<and> filter is_message_start rest = []
           \<and> (\<forall>tail. blocks_matched None (rest @ tail) = blocks_matched (open_state s') tail)))"
proof (cases payloads)
  case Nil
  then show ?thesis by (simp add: initial_state_def open_state_def)
next
  case (Cons p ps)
  let ?s1 = "initial_state\<lparr>hasStarted := True, hasOpenBlock := True\<rparr>"
  let ?first = "Content_block_start 0 (Text_block [])"
  have s1: "hasStarted ?s1" "open_state ?s1 = Some 0" "outputTokens ?s1 = JNum 0"
    "contentBlockIndex ?s1 = 0" "hasOpenBlock ?s1"
    by (simp_all add: initial_state_def open_state_def)
  from assms Cons have p: "\<not> translator_throws p" and ps: "\<not> list_ex translator_throws ps"
    by simp_all
  from body_started [OF s1(1) p, of pf messageId model "randomUUID pf k"]
  obtain evs s2 where
    body1: "for_await_body pf messageId model (randomUUID pf k) ?s1 p = (evs, Inr s2)"
    and c1: "carries ?s1 evs s2"
    by blast
  have conv: "convertKiroEventToAnthropic pf (randomUUID pf k) p 0 True = Inr evs"
    and s2: "s2 = foldl track ?s1 evs"
    using body1 s1
    by (auto simp: for_await_body_def split: sum.splits)
  have body: "for_await_body pf messageId model (randomUUID pf k) initial_state p
      = (Message_start messageId model # ?first # evs, Inr s2)"
    using conv s2
    by (simp add: for_await_body_def initial_state_def)
  from c1 have "hasStarted s2" by (simp add: carries_def)
  from for_await_started [OF this ps, of pf messageId model "Suc k"]
  obtain out' s3 where
    rest: "for_await pf messageId model (Suc k) s2 ps = (out', Inr s3)"
    and c2: "carries s2 out' s3"
    by blast
  have c: "carries ?s1 (evs @ out') s3"
    using c1 c2 by (rule carries_trans)
  let ?rest = "?first # evs @ out'"
  have run: "for_await pf messageId model k initial_state payloads
      = (Message_start messageId model # ?rest, Inr s3)"
    using body rest Cons by simp
  have "open_state s3 = open_block None (Message_start messageId model # ?rest)"
    using c s1 by (simp add: carries_def)
  moreover have "outputTokens s3
      = last_truthy_output_tokens (JNum 0) (Message_start messageId model # ?rest)"
    using c s1 by (simp add: carries_def)
  moreover have "Message_stop \<notin> set (Message_start messageId model # ?rest)"
    using c by (simp add: carries_def)
  moreover have "filter is_message_start ?rest = []"
    using c by (simp add: carries_def)
  moreover have "\<forall>tail. blocks_matched None (?rest @ tail) = blocks_matched (open_state s3) tail"
    using c s1 by (simp add: carries_def)
  ultimately show ?thesis
    using run by blast
qed

text \<open>
  The orchestrator rethrows the error of the first payload on which the translator throws,
  and returns without an error when there is none.
\<close>

lemma body_total:
  "\<exists>out r. for_await_body pf messageId model uuid s event = (out, r)
     \<and> ((\<exists>s'. r = Inr s') \<longleftrightarrow> \<not> translator_throws event)
     \<and> (translator_throws event \<longrightarrow> r = Inl TypeError)"
proof (cases "translator_throws event")
  case True
  then show ?thesis
    by (auto simp: for_await_body_def convert_throws split: prod.splits)
next
  case False
  from convert_shape [OF False]
  have "\<And>uuid idx opn. \<exists>evs. convertKiroEventToAnthropic pf uuid event idx opn = Inr evs"
    by blast
  then obtain evs where "convertKiroEventToAnthropic pf uuid event
      (contentBlockIndex (if \<not> hasStarted s then s\<lparr>hasStarted := True, hasOpenBlock := True\<rparr> else s))
      (hasOpenBlock (if \<not> hasStarted s then s\<lparr>hasStarted := True, hasOpenBlock := True\<rparr> else s))
      = Inr evs"
    by blast
  with False show ?thesis
    by (auto simp: for_await_body_def split: prod.splits if_splits)
qed

lemma for_await_throws:
  assumes "list_ex translator_throws payloads"
  shows "\<exists>out. for_await pf messageId model k s payloads = (out, Inl TypeError)"
  using assms
proof (induction payloads arbitrary: s k)
  case Nil
  then show ?case by simp
next
  case (Cons p ps)
  from body_total [of pf messageId model "randomUUID pf k" s p]
  obtain out r where body: "for_await_body pf messageId model (randomUUID pf k) s p = (out, r)"
    and ok: "(\<exists>s'. r = Inr s') \<longleftrightarrow> \<not> translator_throws p"
    and bad: "translator_throws p \<longrightarrow> r = Inl TypeError"
    by blast
  show ?case
  proof (cases "translator_throws p")
    case True
    with bad body show ?thesis by simp
  next
    case False
    with ok obtain s' where r: "r = Inr s'" by blast
    from False Cons.prems have "list_ex translator_throws ps" by simp
    from Cons.IH [OF this, of "Suc k" s']
    obtain out' where "for_await pf messageId model (Suc k) s' ps = (out', Inl TypeError)"
      by blast
    with body r show ?thesis by simp
  qed
qed

lemma streamKiroResponse_error_iff:
  "snd (streamKiroResponse pf model payloads) = Some TypeError
     \<longleftrightarrow> list_ex translator_throws payloads"
  "snd (streamKiroResponse pf model payloads) = None
     \<longleftrightarrow> \<not> list_ex translator_throws payloads"
proof -
  let ?id = "synthetic_id ''msg_'' (randomUUID pf 0)"
  have bad: "snd (streamKiroResponse pf model payloads) = Some TypeError"
    if "list_ex translator_throws payloads"
    using for_await_throws [OF that, of pf ?id model 1 initial_state]
    by (auto simp: streamKiroResponse_def)
  have good: "snd (streamKiroResponse pf model payloads) = None"
    if "\<not> list_ex translator_throws payloads"
    using for_await_initial [OF that, of pf ?id model 1]
    by (auto simp: streamKiroResponse_def)
  show "snd (streamKiroResponse pf model payloads) = Some TypeError
     \<longleftrightarrow> list_ex translator_throws payloads"
    using bad good by (cases "list_ex translator_throws payloads") auto
  show "snd (streamKiroResponse pf model payloads) = None
     \<longleftrightarrow> \<not> list_ex translator_throws payloads"
    using bad good by (cases "list_ex translator_throws payloads") auto
qed

lemma streamKiroResponse_unfold:
  "streamKiroResponse pf model payloads =
     (case for_await pf (synthetic_id ''msg_'' (randomUUID pf 0)) model 1 initial_state payloads of
        (out, Inl e) \<Rightarrow> (out, Some e)
      | (out, Inr s) \<Rightarrow>
          (out @ (case open_state s of Some i \<Rightarrow> [Content_block_stop i] | None \<Rightarrow> []) @
           [Message_delta (Some ''end_turn'') None (outputTokens s), Message_stop], None))"
  by (simp add: streamKiroResponse_def open_state_def split: prod.splits sum.splits)

lemma translated_unfold:
  "translated pf model payloads =
     fst (for_await pf (synthetic_id ''msg_'' (randomUUID pf 0)) model 1 initial_state payloads)"
  by (simp add: translated_def)

lemmas orchestrator_eval =
  streamKiroResponse_def translated_def initial_state_def for_await_body_def
  convertKiroEventToAnthropic_def or_else_def Let_def

lemma example_message_id [simp]:
  "synthetic_id ''msg_'' (randomUUID example_platform k) = ''msg_1b4e28ba2fa141d2883f0016''"
  by (simp add: synthetic_id_def example_platform_def)

text \<open>
  What the translator returns for a tool invocation, that is for a payload that reaches
  the fifth branch: the stop of the open block if there is one, the start of a tool-use
  block at the next index, the input as one delta if it is truthy, and the stop of that
  block. The orchestrator then holds no open block and the index it had.
\<close>

lemma tool_invocation_events:
  assumes "eventData \<noteq> JNull"
    and "\<And>t. get eventData ''content'' \<noteq> Some (JStr t)"
    and "\<not> truthy_opt (get eventData ''assistantResponseEvent'')"
    and "get eventData ''usage'' = None \<or> get eventData ''unit'' = None"
    and "\<not> truthy_opt (or_else (opt_chain (get eventData ''metadataEvent'') ''tokenUsage'')
              (get eventData ''tokenUsage''))"
    and "or_else (get eventData ''toolUseEvent'') (get eventData ''toolUse'') = Some toolUse"
    and "truthy toolUse"
  shows "convertKiroEventToAnthropic pf uuid eventData blockIndex opn
    = Inr ((if opn then [Content_block_stop blockIndex] else [])
        @ [Content_block_start (blockIndex + 1)
             (Tool_use (or_default (get toolUse ''toolUseId'') (JStr (synthetic_id ''toolu_'' uuid)))
                (get toolUse ''name''))]
        @ (case get toolUse ''input'' of
             Some i \<Rightarrow>
               if truthy i
               then [Content_block_delta (blockIndex + 1) (Input_json_delta (JSON_stringify pf i))]
               else []
           | None \<Rightarrow> [])
        @ [Content_block_stop (blockIndex + 1)])"
  unfolding convertKiroEventToAnthropic_def case_content_other [OF assms(2)]
  using assms(1,3-) by (auto simp: Let_def split: option.split)

lemma tool_invocation_state:
  "hasOpenBlock (foldl track s (pre @ Content_block_start i b # ds @ [Content_block_stop j]))
     = False
   \<and> contentBlockIndex (foldl track s (pre @ Content_block_start i b # ds @ [Content_block_stop j]))
     = contentBlockIndex s"
  by (simp add: track_fixed)

section \<open>Claims about the frame decoder and the parsers\<close>

text \<open>
  C3, at the input where the code departs from it. A frame whose payload is the JSON text
  \<^verbatim>\<open>null\<close> decodes to \<^verbatim>\<open>data: null\<close>, which \<^verbatim>\<open>parseEventStream\<close> takes for an empty
  frame and leaves out, while \<^verbatim>\<open>parseEventStreamAsync\<close>, fed the same bytes as one chunk,
  yields the null value: the two payload sequences differ.
\<close>

theorem parsers_differ_on_null_payload:
  "parseEventStream example_platform null_frame = Some (Inr [])
   \<and> parseEventStreamAsync example_platform [null_frame] = Some (Inr [JNull])"
  by (simp add: parseEventStream_def parseEventStreamAsync_def sync_stop sync_go async_stop
      async_go null_frame_def frame_eval)










text \<open>
  C7. A complete frame whose payload length \<open>totalLength - headersLength - 16\<close> is zero or
  negative decodes to the empty payload with the next offset \<open>offset + totalLength\<close>, and
  each loop goes on from that offset with the payloads it had: the frame adds none.
\<close>

theorem empty_frame_skipped:
  assumes "off + 12 \<le> length buf" and "off + totalLength_at buf off \<le> length buf"
    and "payloadLength_at buf off \<le> 0"
  shows "parseEventMessage pf buf off = Inr (Message JNull (off + totalLength_at buf off))
    \<and> parseEventStream_while pf buf off events
        = parseEventStream_while pf buf (off + totalLength_at buf off) events
    \<and> parseEventStreamAsync_while pf buf off yielded
        = parseEventStreamAsync_while pf buf (off + totalLength_at buf off) yielded"
proof (intro conjI)
  show "parseEventMessage pf buf off = Inr (Message JNull (off + totalLength_at buf off))"
    using assms by (simp add: parseEventMessage_cases)
  show "parseEventStream_while pf buf off events
        = parseEventStream_while pf buf (off + totalLength_at buf off) events"
    using assms by (subst sync_go) simp_all
  show "parseEventStreamAsync_while pf buf off yielded
        = parseEventStreamAsync_while pf buf (off + totalLength_at buf off) yielded"
    using assms by (subst async_go) simp_all
qed

theorem empty_frame_skipped_witness:
  "0 + 12 \<le> length (empty_frame @ hi_frame)
   \<and> 0 + totalLength_at (empty_frame @ hi_frame) 0 \<le> length (empty_frame @ hi_frame)
   \<and> payloadLength_at (empty_frame @ hi_frame) 0 \<le> 0
   \<and> parseEventMessage example_platform (empty_frame @ hi_frame) 0 = Inr (Message JNull 16)
   \<and> parseEventStream_while example_platform (empty_frame @ hi_frame) 0 []
       = Some (Inr [JObj [(''raw'', JStr ''hi'')]])
   \<and> parseEventStreamAsync_while example_platform (empty_frame @ hi_frame) 0 []
       = Some (Inr (34, [JObj [(''raw'', JStr ''hi'')]]))"
proof -
  have len: "0 + 12 \<le> length (empty_frame @ hi_frame)"
    and tot: "0 + totalLength_at (empty_frame @ hi_frame) 0 \<le> length (empty_frame @ hi_frame)"
    and pay: "payloadLength_at (empty_frame @ hi_frame) 0 \<le> 0"
    by (simp_all add: empty_frame_def hi_frame_def frame_eval)
  have next_sync: "parseEventStream_while example_platform (empty_frame @ hi_frame)
        (0 + totalLength_at (empty_frame @ hi_frame) 0) [] = Some (Inr [JObj [(''raw'', JStr ''hi'')]])"
    by (simp add: sync_stop sync_go empty_frame_def hi_frame_def frame_eval)
  have next_async: "parseEventStreamAsync_while example_platform (empty_frame @ hi_frame)
        (0 + totalLength_at (empty_frame @ hi_frame) 0) [] = Some (Inr (34, [JObj [(''raw'', JStr ''hi'')]]))"
    by (simp add: async_stop async_go empty_frame_def hi_frame_def frame_eval)
  have tl: "0 + totalLength_at (empty_frame @ hi_frame) 0 = 16"
    by (simp add: empty_frame_def hi_frame_def frame_eval)
  show ?thesis
    using empty_frame_skipped [OF len tot pay, of example_platform "[]" "[]"]
      len tot pay next_sync next_async tl
    by simp
qed

text \<open>
  C8. A complete frame with a payload to decode (its payload length is positive, otherwise
  it is the empty frame of C7) whose payload text is not JSON decodes to the wrapper
  \<^verbatim>\<open>{ raw: text }\<close> with the next offset \<open>offset + totalLength\<close>; nothing is thrown, and each
  loop goes on from that offset with the wrapper added to the payloads it had.
\<close>

theorem non_json_payload_wrapped:
  assumes "off + 12 \<le> length buf" and "off + totalLength_at buf off \<le> length buf"
    and "0 < payloadLength_at buf off"
    and "JSON_parse pf (TextDecoder_decode pf (payload_bytes buf off)) = None"
  shows "parseEventMessage pf buf off
        = Inr (Message (JObj [(''raw'', JStr (TextDecoder_decode pf (payload_bytes buf off)))])
            (off + totalLength_at buf off))
    \<and> parseEventStream_while pf buf off events
        = parseEventStream_while pf buf (off + totalLength_at buf off)
            (events @ [JObj [(''raw'', JStr (TextDecoder_decode pf (payload_bytes buf off)))]])
    \<and> parseEventStreamAsync_while pf buf off yielded
        = parseEventStreamAsync_while pf buf (off + totalLength_at buf off)
            (yielded @ [JObj [(''raw'', JStr (TextDecoder_decode pf (payload_bytes buf off)))]])"
proof (intro conjI)
  have raw: "parse_or_raw pf (TextDecoder_decode pf (payload_bytes buf off))
      = JObj [(''raw'', JStr (TextDecoder_decode pf (payload_bytes buf off)))]"
    using assms(4) by (simp add: parse_or_raw_def)
  show "parseEventMessage pf buf off
        = Inr (Message (JObj [(''raw'', JStr (TextDecoder_decode pf (payload_bytes buf off)))])
            (off + totalLength_at buf off))"
    using assms raw by (simp add: parseEventMessage_cases)
  show "parseEventStream_while pf buf off events
        = parseEventStream_while pf buf (off + totalLength_at buf off)
            (events @ [JObj [(''raw'', JStr (TextDecoder_decode pf (payload_bytes buf off)))]])"
    using assms raw by (subst sync_go) simp_all
  show "parseEventStreamAsync_while pf buf off yielded
        = parseEventStreamAsync_while pf buf (off + totalLength_at buf off)
            (yielded @ [JObj [(''raw'', JStr (TextDecoder_decode pf (payload_bytes buf off)))]])"
    using assms raw by (subst async_go) simp_all
qed

theorem non_json_payload_wrapped_witness:
  "0 + 12 \<le> length (hi_frame @ null_frame)
   \<and> 0 + totalLength_at (hi_frame @ null_frame) 0 \<le> length (hi_frame @ null_frame)
   \<and> 0 < payloadLength_at (hi_frame @ null_frame) 0
   \<and> JSON_parse example_platform
        (TextDecoder_decode example_platform (payload_bytes (hi_frame @ null_frame) 0)) = None
   \<and> parseEventMessage example_platform (hi_frame @ null_frame) 0
        = Inr (Message (JObj [(''raw'', JStr ''hi'')]) 18)
   \<and> parseEventStream_while example_platform (hi_frame @ null_frame) 0 []
        = Some (Inr [JObj [(''raw'', JStr ''hi'')]])
   \<and> parseEventStreamAsync_while example_platform (hi_frame @ null_frame) 0 []
        = Some (Inr (38, [JObj [(''raw'', JStr ''hi'')], JNull]))"
proof -
  have len: "0 + 12 \<le> length (hi_frame @ null_frame)"
    and tot: "0 + totalLength_at (hi_frame @ null_frame) 0 \<le> length (hi_frame @ null_frame)"
    and pay: "0 < payloadLength_at (hi_frame @ null_frame) 0"
    and bad: "JSON_parse example_platform
        (TextDecoder_decode example_platform (payload_bytes (hi_frame @ null_frame) 0)) = None"
    by (simp_all add: null_frame_def hi_frame_def frame_eval)
  have decoded: "TextDecoder_decode example_platform (payload_bytes (hi_frame @ null_frame) 0) = ''hi''"
    and tl: "0 + totalLength_at (hi_frame @ null_frame) 0 = 18"
    by (simp_all add: null_frame_def hi_frame_def frame_eval)
  have next_sync: "parseEventStream_while example_platform (hi_frame @ null_frame) 18
        ([] @ [JObj [(''raw'', JStr ''hi'')]]) = Some (Inr [JObj [(''raw'', JStr ''hi'')]])"
    by (simp add: sync_stop sync_go null_frame_def hi_frame_def frame_eval)
  have next_async: "parseEventStreamAsync_while example_platform (hi_frame @ null_frame) 18
        ([] @ [JObj [(''raw'', JStr ''hi'')]])
        = Some (Inr (38, [JObj [(''raw'', JStr ''hi'')], JNull]))"
    by (simp add: async_stop async_go null_frame_def hi_frame_def frame_eval)
  show ?thesis
    using non_json_payload_wrapped [OF len tot pay bad, of "[]" "[]"]
      len tot pay bad next_sync next_async
    unfolding decoded tl by simp
qed

text \<open>
  C9, at the input where the code departs from it: on the twelve bytes of a frame that
  declares the total length 0, \<^verbatim>\<open>parseEventStream\<close> does not return.
\<close>

theorem parseEventStream_zero_length_no_return:
  "parseEventStream pf zero_length_frame = None"
  unfolding parseEventStream_def
  by (rule sync_while_diverges) (simp_all add: zero_length_frame_def totalLength_at_def be_uint_def)

text \<open>
  C10. When the frame at the offset is complete and its payload length is positive, the
  bytes \<^verbatim>\<open>new Uint8Array(buffer, payloadOffset, payloadLength)\<close> reads lie inside the
  buffer: the view is built without a RangeError and has \<open>payloadLength\<close> bytes.
\<close>

theorem payload_range_in_buffer:
  assumes "off + 12 \<le> length buf" and "off + totalLength_at buf off \<le> length buf"
    and "0 < payloadLength_at buf off"
  shows "payloadOffset_at buf off + nat (payloadLength_at buf off) \<le> length buf
    \<and> Uint8Array_view buf (payloadOffset_at buf off) (nat (payloadLength_at buf off))
        = Inr (payload_bytes buf off)
    \<and> length (payload_bytes buf off) = nat (payloadLength_at buf off)
    \<and> parseEventMessage pf buf off \<noteq> Inl RangeError"
proof -
  have inside: "payloadOffset_at buf off + nat (payloadLength_at buf off) \<le> length buf"
    using assms(2,3) by (rule payload_in_bounds)
  then show ?thesis
    by (simp add: Uint8Array_view_def payload_bytes_def parseEventMessage_no_error)
qed

theorem payload_range_in_buffer_witness:
  "0 + 12 \<le> length null_frame \<and> 0 + totalLength_at null_frame 0 \<le> length null_frame
   \<and> 0 < payloadLength_at null_frame 0
   \<and> payloadOffset_at null_frame 0 + nat (payloadLength_at null_frame 0) \<le> length null_frame
   \<and> Uint8Array_view null_frame 12 4 = Inr [0x6E, 0x75, 0x6C, 0x6C]
   \<and> parseEventMessage example_platform null_frame 0 \<noteq> Inl RangeError"
proof -
  have len: "0 + 12 \<le> length null_frame"
    and tot: "0 + totalLength_at null_frame 0 \<le> length null_frame"
    and pay: "0 < payloadLength_at null_frame 0"
    by (simp_all add: null_frame_def frame_eval)
  have vals: "payloadOffset_at null_frame 0 = 12" "nat (payloadLength_at null_frame 0) = 4"
    "payload_bytes null_frame 0 = [0x6E, 0x75, 0x6C, 0x6C]"
    by (simp_all add: null_frame_def frame_eval)
  show ?thesis
    using payload_range_in_buffer [OF len tot pay, of example_platform] len tot pay
    unfolding vals by simp
qed

section \<open>Claims about the translator and the orchestrator\<close>

text \<open>
  C1, where it fails. With no payload at all the orchestrator yields the final
  \<^verbatim>\<open>message_delta\<close> and \<^verbatim>\<open>message_stop\<close> and no \<^verbatim>\<open>message_start\<close>, which is
  emitted on the first payload only. On a payload that is the JSON value \<^verbatim>\<open>null\<close>, and
  on the payload \<^verbatim>\<open>{"usage":{"toString":1},"unit":"credit"}\<close>, the translator throws
  after \<^verbatim>\<open>message_start\<close> and the first \<^verbatim>\<open>content_block_start\<close>: the block is never
  stopped and there is no \<^verbatim>\<open>message_stop\<close>.
\<close>

theorem no_message_start_without_payload:
  "streamKiroResponse example_platform ''claude'' []
     = ([Message_delta (Some ''end_turn'') None (JNum 0), Message_stop], None)
   \<and> streamKiroResponse example_platform ''claude'' [JNull]
     = ([Message_start ''msg_1b4e28ba2fa141d2883f0016'' ''claude'',
         Content_block_start 0 (Text_block [])], Some TypeError)
   \<and> streamKiroResponse example_platform ''claude''
       [JObj [(''usage'', JObj [(''toString'', JNum 1)]), (''unit'', JStr ''credit'')]]
     = ([Message_start ''msg_1b4e28ba2fa141d2883f0016'' ''claude'',
         Content_block_start 0 (Text_block [])], Some TypeError)"
  by (simp add: orchestrator_eval)

text \<open>
  C1, amended. For every finite sequence of payloads that is not empty and has no payload
  on which the translator throws (a null payload, or a usage payload with a value that
  does not convert to a string), the orchestrator returns without an error, and the events
  it yields start with
  the one \<^verbatim>\<open>message_start\<close> of the sequence, end with its one \<^verbatim>\<open>message_stop\<close>, and
  in between every \<^verbatim>\<open>content_block_start\<close> is followed, before any other block starts,
  by the one \<^verbatim>\<open>content_block_stop\<close> of its index, with no block left open.
\<close>

theorem event_sequence_well_formed:
  assumes "payloads \<noteq> []" and "\<not> list_ex translator_throws payloads"
  shows "snd (streamKiroResponse pf model payloads) = None
    \<and> hd (fst (streamKiroResponse pf model payloads))
        = Message_start (synthetic_id ''msg_'' (randomUUID pf 0)) model
    \<and> length (filter is_message_start (fst (streamKiroResponse pf model payloads))) = 1
    \<and> last (fst (streamKiroResponse pf model payloads)) = Message_stop
    \<and> count_list (fst (streamKiroResponse pf model payloads)) Message_stop = 1
    \<and> blocks_matched None (fst (streamKiroResponse pf model payloads))"
proof -
  let ?id = "synthetic_id ''msg_'' (randomUUID pf 0)"
  from for_await_initial [OF assms(2), of pf ?id model 1] assms(1)
  obtain rest s where
    run: "for_await pf ?id model 1 initial_state payloads = (Message_start ?id model # rest, Inr s)"
    and stops: "Message_stop \<notin> set (Message_start ?id model # rest)"
    and starts: "filter is_message_start rest = []"
    and blocks: "\<forall>tail. blocks_matched None (rest @ tail) = blocks_matched (open_state s) tail"
    by blast
  let ?closing = "(case open_state s of Some i \<Rightarrow> [Content_block_stop i] | None \<Rightarrow> [])
      @ [Message_delta (Some ''end_turn'') None (outputTokens s)]"
  have out: "streamKiroResponse pf model payloads
      = (Message_start ?id model # (rest @ ?closing) @ [Message_stop], None)"
    using run by (simp add: streamKiroResponse_unfold)
  have closing_starts: "filter is_message_start ?closing = []"
    by (simp split: option.split)
  have closing_stops: "count_list ?closing Message_stop = 0"
    by (simp split: option.split)
  have closing_blocks: "blocks_matched (open_state s) (?closing @ [Message_stop])"
    by (simp split: option.split)
  have "count_list rest Message_stop = 0"
    using stops by (simp add: count_list_0_iff)
  moreover have "blocks_matched None ((rest @ ?closing) @ [Message_stop])"
    using blocks closing_blocks by simp
  ultimately show ?thesis
    using starts closing_starts closing_stops
    unfolding out by simp
qed

theorem event_sequence_well_formed_witness:
  "[JObj [(''content'', JStr ''hi'')],
    JObj [(''usage'', JNum 2), (''unit'', JStr ''credit'')],
    JObj [(''toolUse'', JObj [(''name'', JStr ''search''), (''input'', JObj [])])]] \<noteq> []
   \<and> \<not> list_ex translator_throws [JObj [(''content'', JStr ''hi'')],
        JObj [(''usage'', JNum 2), (''unit'', JStr ''credit'')],
        JObj [(''toolUse'', JObj [(''name'', JStr ''search''), (''input'', JObj [])])]]
   \<and> streamKiroResponse example_platform ''claude''
        [JObj [(''content'', JStr ''hi'')],
         JObj [(''usage'', JNum 2), (''unit'', JStr ''credit'')],
         JObj [(''toolUse'', JObj [(''name'', JStr ''search''), (''input'', JObj [])])]]
      = ([Message_start ''msg_1b4e28ba2fa141d2883f0016'' ''claude'',
          Content_block_start 0 (Text_block []),
          Content_block_delta 0 (Text_delta (JStr ''hi'')),
          Content_block_stop 0,
          Content_block_start 1
            (Tool_use (JStr ''toolu_1b4e28ba2fa141d2883f0016'') (Some (JStr ''search''))),
          Content_block_delta 1 (Input_json_delta ''{}''),
          Content_block_stop 1,
          Message_delta (Some ''end_turn'') None (JNum 0),
          Message_stop], None)
   \<and> blocks_matched None (fst (streamKiroResponse example_platform ''claude''
        [JObj [(''content'', JStr ''hi'')],
         JObj [(''usage'', JNum 2), (''unit'', JStr ''credit'')],
         JObj [(''toolUse'', JObj [(''name'', JStr ''search''), (''input'', JObj [])])]]))"
proof -
  let ?payloads = "[JObj [(''content'', JStr ''hi'')],
    JObj [(''usage'', JNum 2), (''unit'', JStr ''credit'')],
    JObj [(''toolUse'', JObj [(''name'', JStr ''search''), (''input'', JObj [])])]]"
  have nonempty: "?payloads \<noteq> []"
    by simp
  have no_throw: "\<not> list_ex translator_throws ?payloads"
    by (simp add: translator_throws_def or_else_def)
  have run: "streamKiroResponse example_platform ''claude'' ?payloads
      = ([Message_start ''msg_1b4e28ba2fa141d2883f0016'' ''claude'',
          Content_block_start 0 (Text_block []),
          Content_block_delta 0 (Text_delta (JStr ''hi'')),
          Content_block_stop 0,
          Content_block_start 1
            (Tool_use (JStr ''toolu_1b4e28ba2fa141d2883f0016'') (Some (JStr ''search''))),
          Content_block_delta 1 (Input_json_delta ''{}''),
          Content_block_stop 1,
          Message_delta (Some ''end_turn'') None (JNum 0),
          Message_stop], None)"
    by (simp add: orchestrator_eval synthetic_id_def example_platform_def)
  from event_sequence_well_formed [OF nonempty no_throw, of example_platform "''claude''"]
  have "blocks_matched None (fst (streamKiroResponse example_platform ''claude'' ?payloads))"
    by blast
  with nonempty no_throw run show ?thesis by blast
qed

text \<open>
  C2, at the input where the code departs from it. The orchestrator never assigns
  \<^verbatim>\<open>contentBlockIndex\<close>, so the translator is called with block index 0 every time: two
  tool invocations in a row both get the index 1, not 1 and 2.
\<close>

theorem consecutive_tool_blocks_share_index:
  "streamKiroResponse pf model
     [JObj [(''toolUse'', JObj [(''toolUseId'', JStr ''a''), (''name'', JStr ''f'')])],
      JObj [(''toolUse'', JObj [(''toolUseId'', JStr ''b''), (''name'', JStr ''g'')])]]
   = ([Message_start (synthetic_id ''msg_'' (randomUUID pf 0)) model,
       Content_block_start 0 (Text_block []),
       Content_block_stop 0,
       Content_block_start 1 (Tool_use (JStr ''a'') (Some (JStr ''f''))),
       Content_block_stop 1,
       Content_block_start 1 (Tool_use (JStr ''b'') (Some (JStr ''g''))),
       Content_block_stop 1,
       Message_delta (Some ''end_turn'') None (JNum 0),
       Message_stop], None)"
  by (simp add: orchestrator_eval)

text \<open>
  C4. The payloads \<^verbatim>\<open>{"content":"Hello "}\<close> and \<^verbatim>\<open>{"content":"world"}\<close>, then the end of
  the stream, give exactly: \<^verbatim>\<open>message_start\<close>, \<^verbatim>\<open>content_block_start\<close> at index 0 of kind
  text, the two text deltas at index 0, \<^verbatim>\<open>content_block_stop\<close> at index 0,
  \<^verbatim>\<open>message_delta\<close> with stop reason \<^verbatim>\<open>end_turn\<close>, \<^verbatim>\<open>message_stop\<close>.
\<close>

theorem hello_world_scenario:
  "streamKiroResponse pf model
     [JObj [(''content'', JStr ''Hello '')], JObj [(''content'', JStr ''world'')]]
   = ([Message_start (synthetic_id ''msg_'' (randomUUID pf 0)) model,
       Content_block_start 0 (Text_block []),
       Content_block_delta 0 (Text_delta (JStr ''Hello '')),
       Content_block_delta 0 (Text_delta (JStr ''world'')),
       Content_block_stop 0,
       Message_delta (Some ''end_turn'') None (JNum 0),
       Message_stop], None)"
  by (simp add: orchestrator_eval)

text \<open>
  C5, where it fails. After a usage event with 5 output tokens and a later one with 0, the
  last count observed is 0, and the final \<^verbatim>\<open>message_delta\<close> carries 5: a count of zero
  does not replace the count the orchestrator holds. And on the one payload
  \<^verbatim>\<open>{"usage":{"toString":1},"unit":"credit"}\<close> the translator throws: the orchestrator
  yields neither the closing \<^verbatim>\<open>content_block_stop\<close> of the open block, nor a
  \<^verbatim>\<open>message_delta\<close>, nor \<^verbatim>\<open>message_stop\<close>.
\<close>

theorem final_usage_keeps_earlier_count:
  "streamKiroResponse example_platform ''claude''
     [JObj [(''tokenUsage'', JObj [(''outputTokens'', JNum 5)])],
      JObj [(''tokenUsage'', JObj [(''outputTokens'', JNum 0)])]]
   = ([Message_start ''msg_1b4e28ba2fa141d2883f0016'' ''claude'',
       Content_block_start 0 (Text_block []),
       Message_delta None (Some (JNum 0)) (JNum 5),
       Message_delta None (Some (JNum 0)) (JNum 0),
       Content_block_stop 0,
       Message_delta (Some ''end_turn'') None (JNum 5),
       Message_stop], None)
   \<and> last_output_tokens (JNum 0) (translated example_platform ''claude''
       [JObj [(''tokenUsage'', JObj [(''outputTokens'', JNum 5)])],
        JObj [(''tokenUsage'', JObj [(''outputTokens'', JNum 0)])]]) = JNum 0
   \<and> streamKiroResponse example_platform ''claude''
       [JObj [(''usage'', JObj [(''toString'', JNum 1)]), (''unit'', JStr ''credit'')]]
     = ([Message_start ''msg_1b4e28ba2fa141d2883f0016'' ''claude'',
         Content_block_start 0 (Text_block [])], Some TypeError)"
  by (simp add: orchestrator_eval)

text \<open>
  C5, amended. For every sequence of payloads with no payload on which the translator
  throws (a null payload, or a usage payload with a value that does not convert to a
  string), the source is read to its end, and after the events yielded for the payloads
  the orchestrator yields:
  \<^verbatim>\<open>content_block_stop\<close> for the block those events leave open, if they leave one open;
  then one \<^verbatim>\<open>message_delta\<close> with stop reason \<^verbatim>\<open>end_turn\<close> and the output-token count
  of the last usage-bearing event before it whose count is truthy (not zero), 0 if there
  is none; then one \<^verbatim>\<open>message_stop\<close>, the only one.
\<close>

theorem closing_events_on_exhaustion:
  assumes "\<not> list_ex translator_throws payloads"
  shows "streamKiroResponse pf model payloads
    = (translated pf model payloads
       @ (case open_block None (translated pf model payloads) of
            Some i \<Rightarrow> [Content_block_stop i]
          | None \<Rightarrow> [])
       @ [Message_delta (Some ''end_turn'') None
            (last_truthy_output_tokens (JNum 0) (translated pf model payloads)),
          Message_stop],
       None)
    \<and> Message_stop \<notin> set (translated pf model payloads)"
proof -
  let ?id = "synthetic_id ''msg_'' (randomUUID pf 0)"
  from for_await_initial [OF assms, of pf ?id model 1]
  obtain out s where
    run: "for_await pf ?id model 1 initial_state payloads = (out, Inr s)"
    and opn: "open_state s = open_block None out"
    and tokens: "outputTokens s = last_truthy_output_tokens (JNum 0) out"
    and stops: "Message_stop \<notin> set out"
    by blast
  from run have "translated pf model payloads = out"
    by (simp add: translated_unfold)
  with run opn tokens stops show ?thesis
    by (simp add: streamKiroResponse_unfold)
qed

theorem closing_events_on_exhaustion_witness:
  "\<not> list_ex translator_throws [JObj [(''tokenUsage'', JObj [(''outputTokens'', JNum 5)])],
      JObj [(''tokenUsage'', JObj [(''outputTokens'', JNum 0)])]]
   \<and> translated example_platform ''claude''
       [JObj [(''tokenUsage'', JObj [(''outputTokens'', JNum 5)])],
        JObj [(''tokenUsage'', JObj [(''outputTokens'', JNum 0)])]]
      = [Message_start ''msg_1b4e28ba2fa141d2883f0016'' ''claude'',
         Content_block_start 0 (Text_block []),
         Message_delta None (Some (JNum 0)) (JNum 5),
         Message_delta None (Some (JNum 0)) (JNum 0)]
   \<and> streamKiroResponse example_platform ''claude''
       [JObj [(''tokenUsage'', JObj [(''outputTokens'', JNum 5)])],
        JObj [(''tokenUsage'', JObj [(''outputTokens'', JNum 0)])]]
      = ([Message_start ''msg_1b4e28ba2fa141d2883f0016'' ''claude'',
          Content_block_start 0 (Text_block []),
          Message_delta None (Some (JNum 0)) (JNum 5),
          Message_delta None (Some (JNum 0)) (JNum 0)]
         @ [Content_block_stop 0]
         @ [Message_delta (Some ''end_turn'') None (JNum 5), Message_stop], None)"
proof -
  let ?payloads = "[JObj [(''tokenUsage'', JObj [(''outputTokens'', JNum 5)])],
      JObj [(''tokenUsage'', JObj [(''outputTokens'', JNum 0)])]]"
  have no_throw: "\<not> list_ex translator_throws ?payloads"
    by (simp add: translator_throws_def)
  have tr: "translated example_platform ''claude'' ?payloads
      = [Message_start ''msg_1b4e28ba2fa141d2883f0016'' ''claude'',
         Content_block_start 0 (Text_block []),
         Message_delta None (Some (JNum 0)) (JNum 5),
         Message_delta None (Some (JNum 0)) (JNum 0)]"
    by (simp add: orchestrator_eval)
  show ?thesis
    using closing_events_on_exhaustion [OF no_throw, of example_platform "''claude''"] no_throw
    unfolding tr by simp
qed

end
